theory Spec2Isabelle
  imports Main "HOL-Library.Word"
begin

section \<open>The byte-level BPE tokenizer of onnxruntime-extensions\<close>

text \<open>
  A shallow embedding of the tokenizer core: \<^verbatim>\<open>VocabData\<close>, \<^verbatim>\<open>SpecialTokenMap\<close> and
  \<^verbatim>\<open>TokenWithRegularExp\<close> (the header that holds all three) and
  \<^verbatim>\<open>KernelClipBpeTokenizer::Tokenize\<close> (clip_tokenizer.cc).

  Conventions. A C++ \<^verbatim>\<open>int\<close> that is only stored, compared and looked up (an id, a rank)
  is an \<^typ>\<open>int\<close>, and the one constant whose value matters,
  \<^verbatim>\<open>std::numeric_limits<int>::max()\<close>, is written out. The lengths that \<^verbatim>\<open>bpe\<close> adds up
  are 32-bit words, so that their sums wrap as those of the compiled code do, and are read
  as signed numbers by \<^const>\<open>sint\<close>. A
  \<^verbatim>\<open>std::string\<close> is a \<^typ>\<open>string\<close> (a list of bytes), a \<^verbatim>\<open>ustring\<close> a list of code
  points, a \<^verbatim>\<open>std::list\<close> or \<^verbatim>\<open>std::vector\<close> a list, a \<^verbatim>\<open>size_t\<close> a 64-bit word. An
  exception is a value \<open>Inl e\<close> of a sum type.
\<close>

subsection \<open>The merge table and \<^verbatim>\<open>VocabData::bpe\<close>\<close>

text \<open>\<^verbatim>\<open>struct BpeNode { int id; int value; int length; }\<close>: the merged id, the rank and
  the textual length of a merge rule.\<close>

record BpeNode =
  bpe_id :: int
  bpe_value :: int
  bpe_length :: int

text \<open>\<^verbatim>\<open>std::unordered_map<std::pair<int, int>, BpeNode, hash_pair> bpe_map_\<close>\<close>

type_synonym bpe_map = "int \<times> int \<rightharpoonup> BpeNode"

definition INT_MAX :: int where
  "INT_MAX = 2147483647"

text \<open>
  The elements of the list \<^verbatim>\<open>std::list<std::pair<int, int>>\<close> that \<^verbatim>\<open>bpe\<close> works on are
  pairs of an id and a length. The length is an \<^verbatim>\<open>int\<close> that \<^verbatim>\<open>bpe\<close> computes with
  (\<^verbatim>\<open>pos_it->second + token_length\<close>): it is a word of 32 bits, whose addition wraps.
\<close>

type_synonym int32 = "32 word"

text \<open>
  The local variables of one pass of the outer loop of \<^verbatim>\<open>bpe\<close>. The iterator
  \<^verbatim>\<open>pos_it\<close> is the index of the element it points to, \<open>None\<close> for \<^verbatim>\<open>vals.end()\<close>.
\<close>

record bpe_locals =
  pos_it :: "nat option"
  minval :: int
  ori_id1 :: int
  ori_id2 :: int
  aim_id :: int

definition bpe_init :: bpe_locals where
  "bpe_init = \<lparr>pos_it = None, minval = INT_MAX, ori_id1 = 0, ori_id2 = 0, aim_id = 0\<rparr>"

text \<open>
  The scan \<^verbatim>\<open>for (auto it = vals.begin(); it != vals.end(); ++it)\<close>: \<open>i\<close> is the index
  of \<^verbatim>\<open>it\<close> in \<^verbatim>\<open>vals\<close>, the list is what \<^verbatim>\<open>it\<close> still has in front of it. With fewer
  than two elements left, \<^verbatim>\<open>it2 == vals.end()\<close> and the scan stops.
\<close>

fun bpe_scan :: "bpe_map \<Rightarrow> (int \<times> int32) list \<Rightarrow> nat \<Rightarrow> bpe_locals \<Rightarrow> bpe_locals" where
  "bpe_scan m (x # y # rest) i st =
     (case m (fst x, fst y) of
        None \<Rightarrow> bpe_scan m (y # rest) (Suc i) st
      | Some node \<Rightarrow>
          if minval st > bpe_value node
          then bpe_scan m (y # rest) (Suc i)
                 \<lparr>pos_it = Some i, minval = bpe_value node,
                  ori_id1 = fst x, ori_id2 = fst y, aim_id = bpe_id node\<rparr>
          else bpe_scan m (y # rest) (Suc i) st)"
| "bpe_scan m vals i st = st"

text \<open>
  The second loop, \<^verbatim>\<open>for (++pos_it; pos_it != vals.end(); ++pos_it)\<close>, over the elements
  after the merged one: every further adjacent occurrence of the original pair of ids is
  merged too, and the scan goes on after the element just merged.
\<close>

fun bpe_fold :: "int \<Rightarrow> int \<Rightarrow> int \<Rightarrow> (int \<times> int32) list \<Rightarrow> (int \<times> int32) list" where
  "bpe_fold o1 o2 aim (x # y # rest) =
     (if fst x \<noteq> o1 then x # bpe_fold o1 o2 aim (y # rest)
      else if fst y \<noteq> o2 then x # bpe_fold o1 o2 aim (y # rest)
      else (aim, snd y + snd x) # bpe_fold o1 o2 aim rest)"
| "bpe_fold o1 o2 aim vals = vals"

text \<open>
  One pass of the outer loop: \<open>None\<close> when the pass leaves the loop by
  \<^verbatim>\<open>if (pos_it == vals.end()) break\<close>, the list after the pass otherwise.
\<close>

definition bpe_pass :: "bpe_map \<Rightarrow> (int \<times> int32) list \<Rightarrow> (int \<times> int32) list option" where
  "bpe_pass m vals =
     (let st = bpe_scan m vals 0 bpe_init in
      case pos_it st of
        None \<Rightarrow> None
      | Some i \<Rightarrow>
          (case drop i vals of
             x # y # rest \<Rightarrow>
               Some (take i vals @ (aim_id st, snd y + snd x)
                       # bpe_fold (ori_id1 st) (ori_id2 st) (aim_id st) rest)
           | _ \<Rightarrow> None))"

lemma bpe_fold_length: "length (bpe_fold o1 o2 aim vals) \<le> length vals"
  by (induction o1 o2 aim vals rule: bpe_fold.induct) auto

lemma bpe_pass_length:
  assumes "bpe_pass m vals = Some vals'"
  shows "length vals' < length vals"
proof -
  obtain i x y rest where d: "drop i vals = x # y # rest"
    and v: "vals' = take i vals @ (aim_id (bpe_scan m vals 0 bpe_init), snd y + snd x)
                # bpe_fold (ori_id1 (bpe_scan m vals 0 bpe_init))
                    (ori_id2 (bpe_scan m vals 0 bpe_init))
                    (aim_id (bpe_scan m vals 0 bpe_init)) rest"
    using assms
    by (auto simp: bpe_pass_def Let_def split: option.splits list.splits)
  have "length (drop i vals) = Suc (Suc (length rest))"
    by (simp add: d)
  then have "length vals = i + Suc (Suc (length rest))" and "i \<le> length vals"
    by auto
  then show ?thesis
    using bpe_fold_length [of "ori_id1 (bpe_scan m vals 0 bpe_init)"
        "ori_id2 (bpe_scan m vals 0 bpe_init)" "aim_id (bpe_scan m vals 0 bpe_init)" rest]
    by (simp add: v)
qed

text \<open>\<^verbatim>\<open>void bpe(std::list<std::pair<int, int>>& vals) const\<close>: the list is returned.\<close>

function bpe :: "bpe_map \<Rightarrow> (int \<times> int32) list \<Rightarrow> (int \<times> int32) list" where
  "bpe m vals =
     (if length vals \<ge> 2
      then (case bpe_pass m vals of None \<Rightarrow> vals | Some vals' \<Rightarrow> bpe m vals')
      else vals)"
  by pat_completeness auto
termination
  by (relation "measure (\<lambda>(m, vals). length vals)") (auto simp: bpe_pass_length)

declare bpe.simps [simp del]

subsection \<open>Errors, strings and the vocabulary\<close>

text \<open>
  \<^verbatim>\<open>ORTX_CXX_API_THROW(msg, ORT_INVALID_ARGUMENT)\<close> is \<open>InvalidArgument msg\<close>;
  \<open>NarrowingError\<close> is the failure of \<^verbatim>\<open>ort_extensions::narrow\<close>; \<open>OutOfRange\<close> is the
  \<^verbatim>\<open>std::out_of_range\<close> of \<^verbatim>\<open>std::string::at\<close>.
\<close>

datatype error = InvalidArgument string | NarrowingError | OutOfRange

text \<open>A \<^verbatim>\<open>char32_t\<close> code point and a \<^verbatim>\<open>ustring\<close> (a \<^verbatim>\<open>std::u32string\<close>). Code points
  are only compared and looked up, never computed with, so their width plays no part.\<close>

type_synonym char32 = nat
type_synonym ustring = "char32 list"

text \<open>The \<^verbatim>\<open>ustring\<close> of an ASCII literal, as in \<^verbatim>\<open>ustring(" ")\<close> or \<^verbatim>\<open>U's'\<close>.\<close>

definition U :: "char \<Rightarrow> char32" where
  "U c = of_char c"

definition ustring_of :: "string \<Rightarrow> ustring" where
  "ustring_of s = map U s"

text \<open>
  \<^verbatim>\<open>std::search(first, last, pattern)\<close> and \<^verbatim>\<open>std::string::find(pattern)\<close>: the offset of
  the first occurrence of the pattern, \<open>None\<close> for \<^verbatim>\<open>last\<close> or \<^verbatim>\<open>npos\<close>.
\<close>

fun search :: "'a list \<Rightarrow> 'a list \<Rightarrow> nat option" where
  "search [] pat = (if pat = [] then Some 0 else None)"
| "search (x # xs) pat =
     (if take (length pat) (x # xs) = pat then Some 0
      else map_option Suc (search xs pat))"

text \<open>
  \<^verbatim>\<open>std::unordered_map<std::string, int> vocab_map_\<close>, as the list of its entries (the
  keys are distinct): \<^verbatim>\<open>find\<close> is \<^const>\<open>map_of\<close>, \<^verbatim>\<open>size()\<close> is \<^const>\<open>length\<close>, and
  an entry for an absent key is added at the end.
\<close>

type_synonym vocab = "(string \<times> int) list"

definition GetVocabIndex :: "vocab \<Rightarrow> string \<Rightarrow> error + int" where
  "GetVocabIndex vocab_map s =
     (case map_of vocab_map s of
        None \<Rightarrow> Inl (InvalidArgument (''Cannot find word in vocabulary: '' @ s))
      | Some i \<Rightarrow> Inr i)"

text \<open>\<^verbatim>\<open>ort_extensions::narrow<int>\<close> of a \<^verbatim>\<open>size_t\<close>.\<close>

definition narrow_int :: "nat \<Rightarrow> error + int" where
  "narrow_int n = (if int n \<le> INT_MAX then Inr (int n) else Inl NarrowingError)"

subsection \<open>\<^verbatim>\<open>SpecialTokenMap\<close>\<close>

record SpecialTokenInfo =
  tok_str :: ustring
  tok_id :: int

record SpecialTokenMap =
  token_list :: "SpecialTokenInfo list"
  token_map :: "ustring \<rightharpoonup> int"

definition no_special_tokens :: SpecialTokenMap where
  "no_special_tokens = \<lparr>token_list = [], token_map = Map.empty\<rparr>"

text \<open>
  \<^verbatim>\<open>SpecialTokenMap::Add\<close>. The constructor of \<^verbatim>\<open>SpecialTokenInfo\<close> throws on an empty
  string, so \<^verbatim>\<open>token_list_\<close> never holds one.
\<close>

definition Add :: "SpecialTokenMap \<Rightarrow> ustring \<Rightarrow> int \<Rightarrow> error + SpecialTokenMap" where
  "Add stm p_str p_id =
     (case token_map stm p_str of
        Some i \<Rightarrow>
          if i \<noteq> p_id then Inl (InvalidArgument ''Duplicate special tokens.'') else Inr stm
      | None \<Rightarrow>
          if p_str = [] then Inl (InvalidArgument ''Empty special token.'')
          else Inr \<lparr>token_list = token_list stm @ [\<lparr>tok_str = p_str, tok_id = p_id\<rparr>],
                    token_map = (token_map stm)(p_str \<mapsto> p_id)\<rparr>)"

text \<open>
  The \<^verbatim>\<open>while (it != str.first.end())\<close> loop of \<^verbatim>\<open>SplitBySpecialTokens\<close> on one untagged
  segment: \<open>text\<close> is the segment from \<^verbatim>\<open>it\<close> on, which is also
  \<^verbatim>\<open>str.first.substr(search_pos)\<close>. The special token is not empty (see \<^const>\<open>Add\<close>); on an
  empty one the source loop would not end, and the model says nothing.
\<close>

function (sequential) split_segment :: "ustring \<Rightarrow> ustring \<Rightarrow> int \<Rightarrow> (ustring \<times> int) list" where
  "split_segment text (c # cs) tid =
     (if text = [] then []
      else case search text (c # cs) of
        None \<Rightarrow> [(text, - 1)]
      | Some prefixLen \<Rightarrow>
          (if prefixLen \<noteq> 0 then [(take prefixLen text, - 1)] else [])
          @ (take (length (c # cs)) (drop prefixLen text), tid)
          # split_segment (drop (prefixLen + length (c # cs)) text) (c # cs) tid)"
  by pat_completeness auto
termination
  by (relation "measure (\<lambda>(text, st, tid). length text)") auto

declare split_segment.simps [simp del]

text \<open>The loop \<^verbatim>\<open>for (auto& str : res)\<close> for one special token \<open>st\<close>.\<close>

fun split_pass :: "SpecialTokenInfo \<Rightarrow> (ustring \<times> int) list \<Rightarrow> (ustring \<times> int) list" where
  "split_pass st [] = []"
| "split_pass st (seg # segs) =
     (if snd seg \<noteq> - 1 then seg # split_pass st segs
      else split_segment (fst seg) (tok_str st) (tok_id st) @ split_pass st segs)"

text \<open>The loop \<^verbatim>\<open>for (const auto& st : token_list_)\<close>.\<close>

definition SplitBySpecialTokens :: "SpecialTokenMap \<Rightarrow> ustring \<Rightarrow> (ustring \<times> int) list" where
  "SplitBySpecialTokens stm input =
     foldl (\<lambda>res st. split_pass st res) [(input, - 1)] (token_list stm)"

subsection \<open>\<^verbatim>\<open>VocabData::Load\<close>\<close>

text \<open>
  The private data of \<^verbatim>\<open>VocabData\<close>. The array \<^verbatim>\<open>int byte_encoder_[256]\<close> is a function
  of the index. The inverse table \<^verbatim>\<open>id2token_map_\<close>, which \<^verbatim>\<open>Load\<close> fills last and only
  \<^verbatim>\<open>IdToToken\<close> reads, is left out.
\<close>

record VocabData =
  vocab_map :: vocab
  byte_encoder :: "nat \<Rightarrow> int"
  bpe_map :: bpe_map
  unk_id :: int
  special_tokens :: SpecialTokenMap

text \<open>
  The first step of \<^verbatim>\<open>Load\<close>, on the map parsed from the JSON text: the vocabulary and
  \<^verbatim>\<open>unk_id_\<close>, which the constructor set to -1 and which stays so when the unknown token
  is added here.
\<close>

definition Load_unk :: "vocab \<Rightarrow> string \<Rightarrow> vocab \<times> int" where
  "Load_unk vocab_json unk_token =
     (case map_of vocab_json unk_token of
        Some i \<Rightarrow> (vocab_json, i)
      | None \<Rightarrow> (vocab_json @ [(unk_token, int (length vocab_json))], - 1))"

text \<open>
  The loops that fill \<^verbatim>\<open>byte_encoder_\<close>. \<open>EncodeUTF8Char\<close> is
  \<^verbatim>\<open>ustring::EncodeUTF8Char\<close>, of a header that is not part of the sources at hand: it is a
  parameter. The first three loops write \<^verbatim>\<open>byte_encoder_[i]\<close> from the code point \<open>i\<close>.
\<close>

fun encode_own ::
  "(char32 \<Rightarrow> string) \<Rightarrow> vocab \<Rightarrow> nat list \<Rightarrow> (nat \<Rightarrow> int) \<Rightarrow> error + (nat \<Rightarrow> int)" where
  "encode_own EncodeUTF8Char v [] be = Inr be"
| "encode_own EncodeUTF8Char v (i # is) be =
     (case GetVocabIndex v (EncodeUTF8Char i) of
        Inl e \<Rightarrow> Inl e
      | Inr n \<Rightarrow> encode_own EncodeUTF8Char v is (be(i := n)))"

text \<open>The last three write it from \<^verbatim>\<open>index++\<close>, which starts at 256.\<close>

fun encode_indexed ::
  "(char32 \<Rightarrow> string) \<Rightarrow> vocab \<Rightarrow> nat list \<Rightarrow> nat \<Rightarrow> (nat \<Rightarrow> int)
     \<Rightarrow> error + ((nat \<Rightarrow> int) \<times> nat)" where
  "encode_indexed EncodeUTF8Char v [] index be = Inr (be, index)"
| "encode_indexed EncodeUTF8Char v (i # is) index be =
     (case GetVocabIndex v (EncodeUTF8Char index) of
        Inl e \<Rightarrow> Inl e
      | Inr n \<Rightarrow> encode_indexed EncodeUTF8Char v is (index + 1) (be(i := n)))"

definition Load_byte_encoder :: "(char32 \<Rightarrow> string) \<Rightarrow> vocab \<Rightarrow> error + (nat \<Rightarrow> int)" where
  "Load_byte_encoder EncodeUTF8Char v =
     (case encode_own EncodeUTF8Char v [33..<127] (\<lambda>i. 0) of Inl e \<Rightarrow> Inl e | Inr be1 \<Rightarrow>
     (case encode_own EncodeUTF8Char v [161..<173] be1 of Inl e \<Rightarrow> Inl e | Inr be2 \<Rightarrow>
     (case encode_own EncodeUTF8Char v [174..<256] be2 of Inl e \<Rightarrow> Inl e | Inr be3 \<Rightarrow>
     (case encode_indexed EncodeUTF8Char v [0..<33] 256 be3 of Inl e \<Rightarrow> Inl e
      | Inr (be4, index4) \<Rightarrow>
     (case encode_indexed EncodeUTF8Char v [127..<161] index4 be4 of Inl e \<Rightarrow> Inl e
      | Inr (be5, index5) \<Rightarrow>
     (case encode_indexed EncodeUTF8Char v [173] index5 be5 of Inl e \<Rightarrow> Inl e
      | Inr (be6, index6) \<Rightarrow> Inr be6))))))"

text \<open>
  \<^verbatim>\<open>while (std::getline(merges_stream, line))\<close>: the lines of the merges text. Each
  \<^verbatim>\<open>getline\<close> takes the characters up to the next line feed, which it drops, and fails
  when nothing is left.
\<close>

function getlines :: "string \<Rightarrow> string list" where
  "getlines s =
     (if s = [] then []
      else takeWhile (\<lambda>c. c \<noteq> CHR 0x0A) s # getlines (drop 1 (dropWhile (\<lambda>c. c \<noteq> CHR 0x0A) s)))"
  by pat_completeness auto
termination
proof (relation "measure length")
  fix s :: string
  assume "s \<noteq> []"
  have "length (drop 1 (dropWhile (\<lambda>c. c \<noteq> CHR 0x0A) s))
          = length (dropWhile (\<lambda>c. c \<noteq> CHR 0x0A) s) - 1"
    by (rule length_drop)
  moreover have "length (dropWhile (\<lambda>c. c \<noteq> CHR 0x0A) s) \<le> length s"
    by (rule length_dropWhile_le)
  moreover have "0 < length s"
    using \<open>s \<noteq> []\<close> by simp
  ultimately have "length (drop 1 (dropWhile (\<lambda>c. c \<noteq> CHR 0x0A) s)) < length s"
    by linarith
  then show "(drop 1 (dropWhile (\<lambda>c. c \<noteq> CHR 0x0A) s), s) \<in> measure length"
    by (simp only: in_measure)
qed simp

declare getlines.simps [simp del]

text \<open>
  The body of the merges loop for a line that is neither empty nor skipped, from
  \<^verbatim>\<open>auto pos = line.find(' ')\<close> on: the key and the value that the body stores in
  \<^verbatim>\<open>bpe_map_\<close>, with the rank counter \<^verbatim>\<open>index\<close> as the rank.
\<close>

definition parse_merge_line :: "vocab \<Rightarrow> string \<Rightarrow> int \<Rightarrow> error + (int \<times> int) \<times> BpeNode" where
  "parse_merge_line v line index =
     (case search line '' '' of
        None \<Rightarrow> Inl (InvalidArgument (''Cannot know how to parse line: '' @ line))
      | Some pos \<Rightarrow>
          (let w1 = take pos line; w2 = drop (pos + 1) line in
           (case narrow_int (length w1 + length w2) of Inl e \<Rightarrow> Inl e | Inr len \<Rightarrow>
           (let token_length =
                  (if search w2 ''</w>'' \<noteq> None \<or> search w1 ''</w>'' \<noteq> None
                   then len - 4 else len) in
            (case GetVocabIndex v w1 of Inl e \<Rightarrow> Inl e | Inr iw1 \<Rightarrow>
            (case GetVocabIndex v w2 of Inl e \<Rightarrow> Inl e | Inr iw2 \<Rightarrow>
            (case GetVocabIndex v (w1 @ w2) of Inl e \<Rightarrow> Inl e | Inr iww \<Rightarrow>
               Inr ((iw1, iw2),
                    \<lparr>bpe_id = iww, bpe_value = index, bpe_length = token_length\<rparr>))))))))"

text \<open>
  The merges loop over the lines read, with \<^verbatim>\<open>index\<close> and \<^verbatim>\<open>bpe_map_\<close> as state.
  \<^verbatim>\<open>std::regex_replace(line, std::regex("\r"), "")\<close> drops every carriage return.
\<close>

fun Load_merges :: "vocab \<Rightarrow> string list \<Rightarrow> int \<Rightarrow> bpe_map \<Rightarrow> error + (bpe_map \<times> int)" where
  "Load_merges v [] index bm = Inr (bm, index)"
| "Load_merges v (l # ls) index bm =
     (case filter (\<lambda>c. c \<noteq> CHR 0x0D) l of
        [] \<Rightarrow> Load_merges v ls index bm
      | c # cs \<Rightarrow>
          if c = CHR ''#'' \<and> index = 0 then Load_merges v ls index bm
          else
            (case parse_merge_line v (c # cs) index of
               Inl e \<Rightarrow> Inl e
             | Inr (key, val) \<Rightarrow> Load_merges v ls (index + 1) (bm(key \<mapsto> val))))"

text \<open>
  \<^verbatim>\<open>while (istrea >> line)\<close>: the words of the special-token text, separated by the white
  space of the C locale.
\<close>

definition isspace :: "char \<Rightarrow> bool" where
  "isspace c \<longleftrightarrow> c \<in> {CHR '' '', CHR 0x09, CHR 0x0A, CHR 0x0B, CHR 0x0C, CHR 0x0D}"

function stream_words :: "string \<Rightarrow> string list" where
  "stream_words s =
     (case dropWhile isspace s of
        [] \<Rightarrow> []
      | c # cs \<Rightarrow> takeWhile (\<lambda>x. \<not> isspace x) (c # cs)
                  # stream_words (dropWhile (\<lambda>x. \<not> isspace x) cs))"
  by pat_completeness auto
termination
proof (relation "measure length")
  fix s c cs
  assume a: "dropWhile isspace s = c # cs"
  have "length (dropWhile (\<lambda>x. \<not> isspace x) cs) \<le> length cs"
    by (rule length_dropWhile_le)
  moreover have "length (dropWhile isspace s) \<le> length s"
    by (rule length_dropWhile_le)
  then have "length (c # cs) \<le> length s"
    unfolding a .
  ultimately show "(dropWhile (\<lambda>x. \<not> isspace x) cs, s) \<in> measure length"
    by simp
qed simp

declare stream_words.simps [simp del]

text \<open>
  The body of the special-token loop. \<open>FromUTF8\<close> is the constructor
  \<^verbatim>\<open>ustring(const std::string&)\<close>, a parameter like \<open>EncodeUTF8Char\<close>. A word holds no
  white space, so it is never empty and holds no carriage return to drop.
\<close>

fun Load_special ::
  "(string \<Rightarrow> ustring) \<Rightarrow> string list \<Rightarrow> vocab \<Rightarrow> SpecialTokenMap
     \<Rightarrow> error + (vocab \<times> SpecialTokenMap)" where
  "Load_special FromUTF8 [] v stm = Inr (v, stm)"
| "Load_special FromUTF8 (w # ws) v stm =
     (let line = filter (\<lambda>c. c \<noteq> CHR 0x0D) w;
          line_32 = FromUTF8 line;
          (v', n) = (case map_of v line of
                       Some i \<Rightarrow> (v, i)
                     | None \<Rightarrow> (v @ [(line, int (length v))], int (length v)))
      in case Add stm line_32 n of
           Inl e \<Rightarrow> Inl e
         | Inr stm' \<Rightarrow> Load_special FromUTF8 ws v' stm')"

text \<open>
  \<^verbatim>\<open>Load\<close>, from the parsed vocabulary, the merges text, the unknown token and the
  special-token text (\<open>None\<close> for \<^verbatim>\<open>nullptr\<close>).
\<close>

definition Load ::
  "(char32 \<Rightarrow> string) \<Rightarrow> (string \<Rightarrow> ustring) \<Rightarrow> vocab \<Rightarrow> string \<Rightarrow> string \<Rightarrow> string option
     \<Rightarrow> error + VocabData" where
  "Load EncodeUTF8Char FromUTF8 vocab_json merges unk_token special =
     (let (v, unk) = Load_unk vocab_json unk_token in
      (case Load_byte_encoder EncodeUTF8Char v of Inl e \<Rightarrow> Inl e | Inr be \<Rightarrow>
      (case Load_merges v (getlines merges) 0 Map.empty of Inl e \<Rightarrow> Inl e
       | Inr (bm, index) \<Rightarrow>
      (case Load_special FromUTF8 (case special of None \<Rightarrow> [] | Some t \<Rightarrow> stream_words t)
              v no_special_tokens of
         Inl e \<Rightarrow> Inl e
       | Inr (v', stm) \<Rightarrow>
           Inr \<lparr>vocab_map = v', byte_encoder = be, bpe_map = bm, unk_id = unk,
                special_tokens = stm\<rparr>))))"

subsection \<open>White space\<close>

definition IsUnicodeSpace :: "char32 \<Rightarrow> bool" where
  "IsUnicodeSpace ch \<longleftrightarrow>
     ch \<in> {0x0009, 0x000A, 0x000B, 0x000C, 0x000D, 0x001C, 0x001D, 0x001E, 0x001F, 0x0020,
           0x0085, 0x00A0, 0x1680, 0x2000, 0x2001, 0x2002, 0x2003, 0x2004, 0x2005, 0x2006,
           0x2007, 0x2008, 0x2009, 0x200A, 0x2028, 0x2029, 0x202F, 0x205F, 0x3000}"

definition IsEmptyUString :: "ustring \<Rightarrow> bool" where
  "IsEmptyUString s = (if s = ustring_of '' '' then False else list_all IsUnicodeSpace s)"

definition BothSpaces :: "char32 \<Rightarrow> char32 \<Rightarrow> bool" where
  "BothSpaces lhs rhs \<longleftrightarrow> lhs = rhs \<and> IsUnicodeSpace lhs"

text \<open>
  \<^verbatim>\<open>ReplaceString\<close>, for a search string that is not empty (on an empty one the source
  loop does not end, and the model says nothing): \<open>s\<close> is the string from \<^verbatim>\<open>pos\<close> on, and
  what lies before \<^verbatim>\<open>pos\<close> is final.
\<close>

function (sequential) ReplaceString :: "'a list \<Rightarrow> 'a list \<Rightarrow> 'a list \<Rightarrow> 'a list" where
  "ReplaceString s (c # cs) replace =
     (case search s (c # cs) of
        None \<Rightarrow> s
      | Some pos \<Rightarrow>
          take pos s @ replace @ ReplaceString (drop (pos + length (c # cs)) s) (c # cs) replace)"
  by pat_completeness auto

lemma search_bound: "search s pat = Some pos \<Longrightarrow> pos + length pat \<le> length s"
proof (induction s arbitrary: pos)
  case Nil
  then show ?case by (simp split: if_splits)
next
  case (Cons x xs)
  show ?case
  proof (cases "take (length pat) (x # xs) = pat")
    case True
    then have "length pat = min (length (x # xs)) (length pat)"
      by (metis length_take)
    then have "length pat \<le> length (x # xs)"
      by linarith
    with True Cons.prems show ?thesis by simp
  next
    case False
    with Cons.prems obtain p where "search xs pat = Some p" and "pos = Suc p"
      by auto
    with Cons.IH show ?thesis by fastforce
  qed
qed

termination ReplaceString
proof (relation "measure (\<lambda>(s, pat, replace). length s)")
  fix s :: "'a list" and c cs and replace :: "'a list" and pos
  assume "search s (c # cs) = Some pos"
  then have "pos + length (c # cs) \<le> length s"
    by (rule search_bound)
  then show "((drop (pos + length (c # cs)) s, c # cs, replace), s, c # cs, replace)
               \<in> measure (\<lambda>(s, pat, replace). length s)"
    by simp
qed simp

declare ReplaceString.simps [simp del]

text \<open>\<^verbatim>\<open>std::unique(first, last, pred)\<close> with \<^verbatim>\<open>erase\<close>: of each run of elements that
  \<open>pred\<close> relates to the one kept before them, only that one stays.\<close>

fun unique :: "('a \<Rightarrow> 'a \<Rightarrow> bool) \<Rightarrow> 'a list \<Rightarrow> 'a list" where
  "unique pred (x # y # ys) =
     (if pred x y then unique pred (x # ys) else x # unique pred (y # ys))"
| "unique pred xs = xs"

definition WhiteSpaceClean :: "ustring \<Rightarrow> ustring" where
  "WhiteSpaceClean s =
     unique BothSpaces (ReplaceString s (ustring_of [CHR 0x0A]) (ustring_of '' ''))"

subsection \<open>\<^verbatim>\<open>TokenWithRegularExp\<close>\<close>

text \<open>
  \<^verbatim>\<open>ufal::unilib::unicode::category\<close> is a library function: the scanner takes it as a
  parameter, reduced to what the scanner tests, the membership of a code point's general
  category in \<^verbatim>\<open>L\<close>, \<^verbatim>\<open>N\<close> or \<^verbatim>\<open>Z\<close>.
\<close>

datatype category = Cat_L | Cat_N | Cat_Z | Cat_other

definition IsZ :: "(char32 \<Rightarrow> category) \<Rightarrow> char32 \<Rightarrow> bool" where
  "IsZ category ch \<longleftrightarrow> category ch = Cat_Z"

definition NotLNZ :: "(char32 \<Rightarrow> category) \<Rightarrow> char32 \<Rightarrow> bool" where
  "NotLNZ category ch =
     (if category ch = Cat_L then False
      else if category ch = Cat_N then False
      else if category ch = Cat_Z then False
      else True)"

text \<open>
  The loops \<^verbatim>\<open>for (; i < m_text.size(); ++i) if (!p(m_text[i])) break;\<close> that start at
  \<open>i\<close>: the value of \<open>i\<close> after the loop.
\<close>

definition run_end :: "(char32 \<Rightarrow> bool) \<Rightarrow> nat \<Rightarrow> ustring \<Rightarrow> nat" where
  "run_end p i m_text = i + length (takeWhile p (drop i m_text))"

text \<open>
  The first block of \<^verbatim>\<open>TryMatch\<close>, the alternative
  \<^verbatim>\<open>'s|'t|'re|'ve|'m|'ll|'d\<close>: the length of the match, \<open>None\<close> when the block falls
  through to the next alternative.
\<close>

definition contraction :: "ustring \<Rightarrow> nat option" where
  "contraction m_text =
     (if m_text ! 0 = U (CHR 0x27) \<and> length m_text > 1
      then
        if m_text ! 1 = U (CHR ''s'') \<or> m_text ! 1 = U (CHR ''t'') \<or>
           m_text ! 1 = U (CHR ''m'') \<or> m_text ! 1 = U (CHR ''d'')
        then Some 2
        else if length m_text > 2 \<and>
                ((m_text ! 1 = U (CHR ''r'') \<and> m_text ! 2 = U (CHR ''e'')) \<or>
                 (m_text ! 1 = U (CHR ''v'') \<and> m_text ! 2 = U (CHR ''e'')) \<or>
                 (m_text ! 1 = U (CHR ''l'') \<and> m_text ! 2 = U (CHR ''l'')))
        then Some 3
        else None
      else None)"

text \<open>
  The alternatives of \<^verbatim>\<open>TryMatch\<close> in their order. Every one that matches ends with
  \<^verbatim>\<open>res = m_text.substr(0, i); m_text = m_text.substr(i); return res;\<close>, so what is
  computed here is that \<open>i\<close>, and 0 for the empty view returned at the end. The text is
  not empty: \<^verbatim>\<open>GetNextToken\<close> tests that before the call.
\<close>

definition match_length :: "(char32 \<Rightarrow> category) \<Rightarrow> ustring \<Rightarrow> nat" where
  "match_length category m_text =
     (case contraction m_text of
        Some i \<Rightarrow> i
      | None \<Rightarrow>
          if m_text ! 0 = U (CHR '' '') \<and> length m_text > 1 \<and> category (m_text ! 1) = Cat_L
          then run_end (\<lambda>ch. category ch = Cat_L) 2 m_text
          else if category (m_text ! 0) = Cat_L
          then run_end (\<lambda>ch. category ch = Cat_L) 1 m_text
          else if m_text ! 0 = U (CHR '' '') \<and> length m_text > 1
                  \<and> category (m_text ! 1) = Cat_N
          then run_end (\<lambda>ch. category ch = Cat_N) 2 m_text
          else if category (m_text ! 0) = Cat_N
          then run_end (\<lambda>ch. category ch = Cat_N) 1 m_text
          else if m_text ! 0 = U (CHR '' '') \<and> length m_text > 1
                  \<and> NotLNZ category (m_text ! 1)
          then run_end (NotLNZ category) 2 m_text
          else if NotLNZ category (m_text ! 0)
          then run_end (NotLNZ category) 1 m_text
          else if length m_text \<ge> 1 \<and> IsZ category (m_text ! 0)
          then (let i = run_end (IsZ category) 1 m_text in
                if i > 1 \<and> i \<noteq> length m_text then i - 1 else i)
          else 0)"

text \<open>\<^verbatim>\<open>TryMatch\<close>: the match and the new \<^verbatim>\<open>m_text\<close>.\<close>

definition TryMatch :: "(char32 \<Rightarrow> category) \<Rightarrow> ustring \<Rightarrow> ustring \<times> ustring" where
  "TryMatch category m_text =
     (let i = match_length category m_text in (take i m_text, drop i m_text))"

lemma TryMatch_rest_length:
  "TryMatch category m_text = (res, m_text') \<Longrightarrow> length m_text' \<le> length m_text"
  by (auto simp: TryMatch_def Let_def)

lemma TryMatch_match_length:
  "TryMatch category m_text = (res, m_text') \<Longrightarrow> res \<noteq> [] \<Longrightarrow> length m_text' < length m_text"
  by (cases "match_length category m_text") (auto simp: TryMatch_def Let_def)

text \<open>\<^verbatim>\<open>GetNextToken\<close>: the pair returned, \<open>None\<close> for \<^verbatim>\<open>{false, {}}\<close>, and the new
  \<^verbatim>\<open>m_text\<close>.\<close>

function GetNextToken :: "(char32 \<Rightarrow> category) \<Rightarrow> ustring \<Rightarrow> ustring option \<times> ustring" where
  "GetNextToken category m_text =
     (if m_text = [] then (None, m_text)
      else (case TryMatch category m_text of
              (res, m_text') \<Rightarrow>
                if res = [] then GetNextToken category (drop 1 m_text')
                else (Some res, m_text')))"
  by pat_completeness auto
termination
  by (relation "measure (\<lambda>(category, m_text). length m_text)")
     (auto simp: TryMatch_def Let_def)

declare GetNextToken.simps [simp del]

lemma GetNextToken_length:
  "GetNextToken category m_text = (Some tok, m_text') \<Longrightarrow> length m_text' < length m_text"
proof (induction category m_text rule: GetNextToken.induct)
  case (1 category m_text)
  show ?case
  proof (cases "m_text = []")
    case True
    with "1.prems" show ?thesis
      by (simp add: GetNextToken.simps [of category "[]"])
  next
    case False
    obtain res t where tm: "TryMatch category m_text = (res, t)"
      by (cases "TryMatch category m_text")
    show ?thesis
    proof (cases "res = []")
      case True
      with False tm "1.prems" have "GetNextToken category (drop 1 t) = (Some tok, m_text')"
        by (simp add: GetNextToken.simps [of category m_text])
      then have "length m_text' < length (drop 1 t)"
        by (rule "1.IH" [OF False tm [symmetric] True])
      moreover have "length t \<le> length m_text"
        using tm by (rule TryMatch_rest_length)
      ultimately show ?thesis by simp
    next
      case nonempty: False
      with False tm "1.prems" have "m_text' = t"
        by (simp add: GetNextToken.simps [of category m_text])
      with tm nonempty show ?thesis
        by (simp add: TryMatch_match_length)
    qed
  qed
qed

subsection \<open>\<^verbatim>\<open>KernelClipBpeTokenizer::Tokenize\<close>\<close>

text \<open>\<^verbatim>\<open>VocabData::GetEncoding\<close>: the id of the key, \<^verbatim>\<open>unk_id_\<close> for an unknown one.\<close>

definition GetEncoding :: "VocabData \<Rightarrow> string \<Rightarrow> int" where
  "GetEncoding vd key = (case map_of (vocab_map vd) key of Some i \<Rightarrow> i | None \<Rightarrow> unk_id vd)"

text \<open>
  The loop that fills \<^verbatim>\<open>byte_list\<close> from the bytes of \<^verbatim>\<open>utf8_token\<close>: the last byte is
  looked up with the end-of-word marker, the others go through the byte encoder.
\<close>

fun byte_encodings :: "VocabData \<Rightarrow> string \<Rightarrow> (int \<times> int32) list" where
  "byte_encodings vd [] = []"
| "byte_encodings vd [c] = [(GetEncoding vd (c # ''</w>''), 1)]"
| "byte_encodings vd (c # cs) = (byte_encoder vd (of_char c), 1) # byte_encodings vd cs"

text \<open>\<^verbatim>\<open>using OffsetMappingType = std::list<std::pair<size_t, size_t>>\<close>\<close>

type_synonym OffsetMappingType = "(64 word \<times> 64 word) list"

text \<open>
  The loop \<^verbatim>\<open>for (auto p : byte_list)\<close> that adds the output of \<^verbatim>\<open>bpe\<close> to \<^verbatim>\<open>res\<close>,
  with \<^verbatim>\<open>offset\<close> and \<^verbatim>\<open>offset_mapping\<close>. The sum \<^verbatim>\<open>offset + p.second\<close> is one of
  \<^verbatim>\<open>size_t\<close>, to which the signed length \<^verbatim>\<open>p.second\<close> is converted.
\<close>

fun add_output ::
  "int \<Rightarrow> bool \<Rightarrow> (int \<times> int32) list \<Rightarrow> int list \<Rightarrow> 64 word \<Rightarrow> OffsetMappingType
     \<Rightarrow> int list \<times> 64 word \<times> OffsetMappingType" where
  "add_output max_length compute_offset_mapping [] res offset offset_mapping =
     (res, offset, offset_mapping)"
| "add_output max_length compute_offset_mapping (p # ps) res offset offset_mapping =
     (if int (length res) \<ge> max_length then (res, offset, offset_mapping)
      else if compute_offset_mapping
      then add_output max_length compute_offset_mapping ps (res @ [fst p])
             (offset + of_int (sint (snd p)))
             (offset_mapping @ [(offset, offset + of_int (sint (snd p)))])
      else add_output max_length compute_offset_mapping ps (res @ [fst p])
             offset offset_mapping)"

text \<open>
  The loop \<^verbatim>\<open>while (static_cast<int64_t>(res.size()) < max_length)\<close> over the tokens of
  one segment; \<open>m_text\<close> is the text \<^verbatim>\<open>regcmp\<close> still holds. \<open>ToUTF8\<close> is the conversion
  \<^verbatim>\<open>std::string(ustring(tok))\<close>, a parameter; on an empty \<^verbatim>\<open>utf8_token\<close> the call
  \<^verbatim>\<open>utf8_token.at(0)\<close> throws.
\<close>

function token_loop ::
  "(char32 \<Rightarrow> category) \<Rightarrow> (ustring \<Rightarrow> string) \<Rightarrow> VocabData \<Rightarrow> int \<Rightarrow> bool \<Rightarrow> ustring
     \<Rightarrow> int list \<Rightarrow> 64 word \<Rightarrow> OffsetMappingType
     \<Rightarrow> error + int list \<times> 64 word \<times> OffsetMappingType" where
  "token_loop category ToUTF8 vd max_length compute_offset_mapping m_text
     res offset offset_mapping =
     (if \<not> int (length res) < max_length then Inr (res, offset, offset_mapping)
      else (case GetNextToken category m_text of
              (None, m_text') \<Rightarrow> Inr (res, offset, offset_mapping)
            | (Some tok, m_text') \<Rightarrow>
                (let utf8_token = ToUTF8 tok in
                 if compute_offset_mapping \<and> utf8_token = [] then Inl OutOfRange
                 else
                   (let offset1 =
                          (if compute_offset_mapping \<and> hd utf8_token = CHR '' ''
                           then offset + 1 else offset);
                        utf8_token1 = filter (\<lambda>c. c \<noteq> CHR '' '') utf8_token;
                        byte_list = bpe (bpe_map vd) (byte_encodings vd utf8_token1)
                    in (case add_output max_length compute_offset_mapping byte_list
                               res offset1 offset_mapping of
                          (res', offset', offset_mapping') \<Rightarrow>
                            token_loop category ToUTF8 vd max_length compute_offset_mapping
                              m_text' res' offset' offset_mapping')))))"
  by pat_completeness auto
termination
  by (relation "measure (\<lambda>(category, ToUTF8, vd, max_length, com, m_text, rest). length m_text)")
     (auto dest: GetNextToken_length [OF sym])

declare token_loop.simps [simp del]

text \<open>
  The loop \<^verbatim>\<open>for (auto& seg_id : special_token_split_res)\<close>. \<^verbatim>\<open>regcmp.Set(ptr)\<close> makes
  the view from a pointer to the characters of the segment, so the view ends at the
  first null character.
\<close>

fun segment_loop ::
  "(char32 \<Rightarrow> category) \<Rightarrow> (ustring \<Rightarrow> string) \<Rightarrow> VocabData \<Rightarrow> int \<Rightarrow> bool
     \<Rightarrow> (ustring \<times> int) list \<Rightarrow> int list \<Rightarrow> OffsetMappingType list
     \<Rightarrow> error + int list \<times> OffsetMappingType list" where
  "segment_loop category ToUTF8 vd max_length compute_offset_mapping [] res offset_map =
     Inr (res, offset_map)"
| "segment_loop category ToUTF8 vd max_length compute_offset_mapping (seg_id # segs)
     res offset_map =
     (if int (length res) \<ge> max_length then Inr (res, offset_map)
      else if snd seg_id \<noteq> - 1
      then segment_loop category ToUTF8 vd max_length compute_offset_mapping segs
             (res @ [snd seg_id]) offset_map
      else
        (case token_loop category ToUTF8 vd max_length compute_offset_mapping
                (takeWhile (\<lambda>ch. ch \<noteq> 0) (fst seg_id)) res 0
                (if compute_offset_mapping then [(0, 0)] else []) of
           Inl e \<Rightarrow> Inl e
         | Inr (res', offset', offset_mapping') \<Rightarrow>
             segment_loop category ToUTF8 vd max_length compute_offset_mapping segs res'
               (if compute_offset_mapping
                then offset_map @ [offset_mapping' @ [(0, 0)]] else offset_map)))"

text \<open>
  \<^verbatim>\<open>Tokenize\<close>: the vector returned and the list \<^verbatim>\<open>offset_map\<close> the call leaves. The
  call also cleans and lowers its argument \<^verbatim>\<open>input\<close> in place; \<^verbatim>\<open>Compute\<close> passes a copy
  and does not read it again, so that string is not returned here.
  \<open>ToLower\<close> is the function of that name of the Unicode header, a parameter.
\<close>

definition Tokenize ::
  "(char32 \<Rightarrow> category) \<Rightarrow> (char32 \<Rightarrow> char32) \<Rightarrow> (ustring \<Rightarrow> string) \<Rightarrow> VocabData
     \<Rightarrow> ustring \<Rightarrow> int \<Rightarrow> bool \<Rightarrow> OffsetMappingType list
     \<Rightarrow> error + int list \<times> OffsetMappingType list" where
  "Tokenize category ToLower ToUTF8 vd input max_length compute_offset_mapping offset_map =
     (let input1 = WhiteSpaceClean input in
      if IsEmptyUString input1 then Inr ([], offset_map)
      else
        (let res = [GetEncoding vd ''<|startoftext|>''];
             input2 = map ToLower input1;
             special_token_split_res = SplitBySpecialTokens (special_tokens vd) input2
         in (case segment_loop category ToUTF8 vd max_length compute_offset_mapping
                    special_token_split_res res offset_map of
               Inl e \<Rightarrow> Inl e
             | Inr (res', offset_map') \<Rightarrow>
                 Inr (res' @ [GetEncoding vd ''<|endoftext|>''], offset_map'))))"

section \<open>Example data\<close>

text \<open>
  A merge table of two rules over the ids 1, 2 and 4: the pair (1, 2) merges into 3 with
  rank 0, the pair (2, 4) into 5 with rank 1.
\<close>

definition ex_merges :: bpe_map where
  "ex_merges =
     [(1, 2) \<mapsto> \<lparr>bpe_id = 3, bpe_value = 0, bpe_length = 2\<rparr>,
      (2, 4) \<mapsto> \<lparr>bpe_id = 5, bpe_value = 1, bpe_length = 2\<rparr>]"

text \<open>
  For the parameter \<open>EncodeUTF8Char\<close>: the UTF-8 encoding of a code point.
\<close>

definition utf8_encode :: "char32 \<Rightarrow> string" where
  "utf8_encode cp =
     (if cp < 0x80 then [char_of cp]
      else if cp < 0x800 then [char_of (0xC0 + cp div 0x40), char_of (0x80 + cp mod 0x40)]
      else if cp < 0x10000
      then [char_of (0xE0 + cp div 0x1000), char_of (0x80 + cp div 0x40 mod 0x40),
            char_of (0x80 + cp mod 0x40)]
      else [char_of (0xF0 + cp div 0x40000), char_of (0x80 + cp div 0x1000 mod 0x40),
            char_of (0x80 + cp div 0x40 mod 0x40), char_of (0x80 + cp mod 0x40)])"

text \<open>
  For the parameters \<open>FromUTF8\<close> and \<open>ToUTF8\<close>: the two conversions on ASCII text, where a
  byte is a code point; the first is \<^const>\<open>ustring_of\<close>.
\<close>

definition ascii_encode :: "ustring \<Rightarrow> string" where
  "ascii_encode s = map char_of s"

text \<open>
  A vocabulary: the two special tokens of the CLIP tokenizer, the words \<^verbatim>\<open>#b\<close> and
  \<^verbatim>\<open>cd\<close>, five word-final letters, and the 324 characters that the byte encoder looks
  up, each with its code point as id.
\<close>

definition ex_words :: vocab where
  "ex_words =
     [(''<|startoftext|>'', 324), (''<|endoftext|>'', 325), (''#b'', 326), (''cd'', 327),
      (''a</w>'', 328), (''b</w>'', 329), (''c</w>'', 330), (''d</w>'', 331),
      (''e</w>'', 332)]"

definition ex_vocab :: vocab where
  "ex_vocab = ex_words @ map (\<lambda>cp. (utf8_encode cp, int cp)) [0..<324]"

text \<open>Two merges texts of two lines each: a rule and then a rule whose merged word
  \<^verbatim>\<open>ab\<close> the example vocabulary lacks; a comment line and then a line \<^verbatim>\<open># b\<close>.\<close>

definition ex_merges_fail :: string where
  "ex_merges_fail = ''c d'' @ [CHR 0x0A] @ ''a b''"

definition ex_merges_comments :: string where
  "ex_merges_comments = ''#version: 0.2'' @ [CHR 0x0A] @ ''# b''"

text \<open>
  For the parameter \<open>category\<close>: the classes of the ASCII letters, digits and space.
\<close>

definition ascii_category :: "char32 \<Rightarrow> category" where
  "ascii_category ch =
     (if (0x41 \<le> ch \<and> ch \<le> 0x5A) \<or> (0x61 \<le> ch \<and> ch \<le> 0x7A) then Cat_L
      else if 0x30 \<le> ch \<and> ch \<le> 0x39 then Cat_N
      else if ch = 0x20 then Cat_Z
      else Cat_other)"

text \<open>For the parameter \<open>ToLower\<close>: the lower case of the ASCII letters.\<close>

definition ascii_tolower :: "char32 \<Rightarrow> char32" where
  "ascii_tolower ch = (if 0x41 \<le> ch \<and> ch \<le> 0x5A then ch + 0x20 else ch)"

text \<open>
  The special-token text that the constructor of \<^verbatim>\<open>KernelClipBpeTokenizer\<close> passes to
  \<^verbatim>\<open>Load\<close>, and what \<^verbatim>\<open>Load\<close> returns for the example vocabulary, the merges text
  \<^verbatim>\<open>c d\<close>, the unknown token \<^verbatim>\<open><|endoftext|>\<close> and these special tokens, as a
  function of the byte encoder.
\<close>

definition ex_special :: string where
  "ex_special = ''<|startoftext|>'' @ [CHR 0x0A] @ ''<|endoftext|>''"

definition ex_loaded :: "(nat \<Rightarrow> int) \<Rightarrow> VocabData" where
  "ex_loaded be =
     \<lparr>vocab_map = ex_vocab, byte_encoder = be,
      bpe_map = [(99, 100) \<mapsto> \<lparr>bpe_id = 327, bpe_value = 0, bpe_length = 2\<rparr>],
      unk_id = 325,
      special_tokens =
        \<lparr>token_list = [\<lparr>tok_str = ustring_of ''<|startoftext|>'', tok_id = 324\<rparr>,
                       \<lparr>tok_str = ustring_of ''<|endoftext|>'', tok_id = 325\<rparr>],
         token_map = [ustring_of ''<|startoftext|>'' \<mapsto> 324,
                      ustring_of ''<|endoftext|>'' \<mapsto> 325]\<rparr>\<rparr>"

section \<open>Notions used in the statements\<close>

subsection \<open>Adjacent pairs and the scan of \<^verbatim>\<open>bpe\<close>\<close>

text \<open>The merge rule of the adjacent pair at positions \<open>k\<close> and \<open>k + 1\<close> of a list, if the
  list has such a pair and the table has a rule for it.\<close>

definition adj_node :: "bpe_map \<Rightarrow> (int \<times> int32) list \<Rightarrow> nat \<Rightarrow> BpeNode option" where
  "adj_node m vals k =
     (if Suc k < length vals then m (fst (vals ! k), fst (vals ! Suc k)) else None)"

text \<open>What the scan leaves in the local variables: either they are as before, and no
  pair scanned has a rank below \<open>minval\<close>;\<close>

definition scan_kept :: "bpe_map \<Rightarrow> (int \<times> int32) list \<Rightarrow> bpe_locals \<Rightarrow> bpe_locals \<Rightarrow> bool" where
  "scan_kept m xs st st' \<longleftrightarrow>
     st' = st \<and> (\<forall>k n. adj_node m xs k = Some n \<longrightarrow> minval st \<le> bpe_value n)"

text \<open>or they describe the pair at \<open>j\<close>, whose rank is below the old \<open>minval\<close>, at most
  the rank of every pair scanned and below the rank of every pair before \<open>j\<close>.\<close>

definition scan_found ::
  "bpe_map \<Rightarrow> (int \<times> int32) list \<Rightarrow> nat \<Rightarrow> bpe_locals \<Rightarrow> bpe_locals \<Rightarrow> nat \<Rightarrow> BpeNode \<Rightarrow> bool" where
  "scan_found m xs i st st' j n \<longleftrightarrow>
     adj_node m xs j = Some n \<and>
     st' = \<lparr>pos_it = Some (i + j), minval = bpe_value n,
            ori_id1 = fst (xs ! j), ori_id2 = fst (xs ! Suc j), aim_id = bpe_id n\<rparr> \<and>
     bpe_value n < minval st \<and>
     (\<forall>k n'. adj_node m xs k = Some n' \<longrightarrow>
        bpe_value n \<le> bpe_value n' \<and> (k < j \<longrightarrow> bpe_value n < bpe_value n'))"

subsection \<open>The byte ranges of the encoder\<close>

text \<open>The printable ranges of the byte encoder, and the other byte values in increasing
  order.\<close>

definition printable :: "nat \<Rightarrow> bool" where
  "printable b \<longleftrightarrow> 33 \<le> b \<and> b \<le> 126 \<or> 161 \<le> b \<and> b \<le> 172 \<or> 174 \<le> b \<and> b \<le> 255"

definition nonprintable_bytes :: "nat list" where
  "nonprintable_bytes = filter (\<lambda>b. \<not> printable b) [0..<256]"

subsection \<open>Lines of the merges text\<close>

text \<open>A line that the merges loop skips while no rule has been read: after the carriage
  returns are dropped it is empty or starts with \<^verbatim>\<open>#\<close>.\<close>

definition skippable :: "string \<Rightarrow> bool" where
  "skippable l =
     (case filter (\<lambda>c. c \<noteq> CHR 0x0D) l of [] \<Rightarrow> True | c # cs \<Rightarrow> c = CHR ''#'')"

subsection \<open>Contractions\<close>

text \<open>The contractions of two and of three characters: an apostrophe and one of
  \<^verbatim>\<open>s\<close>, \<^verbatim>\<open>t\<close>, \<^verbatim>\<open>m\<close>, \<^verbatim>\<open>d\<close>, or an apostrophe and one of \<^verbatim>\<open>re\<close>, \<^verbatim>\<open>ve\<close>, \<^verbatim>\<open>ll\<close>.\<close>

definition contractions2 :: "ustring list" where
  "contractions2 = map (\<lambda>c. [U (CHR 0x27), U c]) ''stmd''"

definition contractions3 :: "ustring list" where
  "contractions3 = map (\<lambda>s. U (CHR 0x27) # ustring_of s) [''re'', ''ve'', ''ll'']"

subsection \<open>The ids of a text\<close>

text \<open>
  What a text contributes to the result when no cap stops the loops: the ids of all the
  tokens of one untagged segment, of a list of segments, and of an input.
\<close>

function token_ids ::
  "(char32 \<Rightarrow> category) \<Rightarrow> (ustring \<Rightarrow> string) \<Rightarrow> VocabData \<Rightarrow> ustring \<Rightarrow> int list" where
  "token_ids category ToUTF8 vd m_text =
     (case GetNextToken category m_text of
        (None, m_text') \<Rightarrow> []
      | (Some tok, m_text') \<Rightarrow>
          map fst (bpe (bpe_map vd)
                     (byte_encodings vd (filter (\<lambda>c. c \<noteq> CHR '' '') (ToUTF8 tok))))
          @ token_ids category ToUTF8 vd m_text')"
  by pat_completeness auto
termination
  by (relation "measure (\<lambda>(category, ToUTF8, vd, m_text). length m_text)")
     (auto dest: GetNextToken_length [OF sym])

declare token_ids.simps [simp del]

fun segment_ids ::
  "(char32 \<Rightarrow> category) \<Rightarrow> (ustring \<Rightarrow> string) \<Rightarrow> VocabData \<Rightarrow> (ustring \<times> int) list
     \<Rightarrow> int list" where
  "segment_ids category ToUTF8 vd [] = []"
| "segment_ids category ToUTF8 vd (seg_id # segs) =
     (if snd seg_id \<noteq> - 1 then [snd seg_id]
      else token_ids category ToUTF8 vd (takeWhile (\<lambda>ch. ch \<noteq> 0) (fst seg_id)))
     @ segment_ids category ToUTF8 vd segs"

definition content_ids ::
  "(char32 \<Rightarrow> category) \<Rightarrow> (char32 \<Rightarrow> char32) \<Rightarrow> (ustring \<Rightarrow> string) \<Rightarrow> VocabData
     \<Rightarrow> ustring \<Rightarrow> int list" where
  "content_ids category ToLower ToUTF8 vd input =
     segment_ids category ToUTF8 vd
       (SplitBySpecialTokens (special_tokens vd) (map ToLower (WhiteSpaceClean input)))"

section \<open>Properties of \<^verbatim>\<open>bpe\<close>\<close>

lemma adj_node_Cons_Suc: "adj_node m (x # xs) (Suc k) = adj_node m xs k"
  by (simp add: adj_node_def)

lemma adj_node_Cons_0: "adj_node m (x # y # rest) 0 = m (fst x, fst y)"
  by (simp add: adj_node_def)

lemma bpe_scan_spec:
  "scan_kept m xs st (bpe_scan m xs i st) \<or>
   (\<exists>j n. scan_found m xs i st (bpe_scan m xs i st) j n)"
proof (induction m xs i st rule: bpe_scan.induct)
  case (1 m x y rest i st)
  let ?xs = "x # y # rest"
  show ?case
  proof (cases "m (fst x, fst y)")
    case None
    have shift: "adj_node m ?xs k = Some n \<Longrightarrow>
        \<exists>k'. k = Suc k' \<and> adj_node m (y # rest) k' = Some n" for k n
      using None by (cases k) (auto simp: adj_node_Cons_0 adj_node_Cons_Suc)
    from 1(1) [OF None] show ?thesis
    proof
      assume "scan_kept m (y # rest) st (bpe_scan m (y # rest) (Suc i) st)"
      then have "scan_kept m ?xs st (bpe_scan m ?xs i st)"
        using None shift unfolding scan_kept_def by fastforce
      then show ?thesis ..
    next
      assume "\<exists>j n. scan_found m (y # rest) (Suc i) st (bpe_scan m (y # rest) (Suc i) st) j n"
      then obtain j n
        where f: "scan_found m (y # rest) (Suc i) st (bpe_scan m (y # rest) (Suc i) st) j n"
        by blast
      have "scan_found m ?xs i st (bpe_scan m ?xs i st) (Suc j) n"
        unfolding scan_found_def
      proof (intro conjI allI impI)
        show "adj_node m ?xs (Suc j) = Some n"
          using f by (simp add: scan_found_def adj_node_Cons_Suc)
        show "bpe_scan m ?xs i st = \<lparr>pos_it = Some (i + Suc j), minval = bpe_value n,
            ori_id1 = fst (?xs ! Suc j), ori_id2 = fst (?xs ! Suc (Suc j)),
            aim_id = bpe_id n\<rparr>"
          using f None by (simp add: scan_found_def)
        show "bpe_value n < minval st"
          using f by (simp add: scan_found_def)
      next
        fix k n' assume a: "adj_node m ?xs k = Some n'"
        from shift [OF a] obtain k' where k: "k = Suc k'" "adj_node m (y # rest) k' = Some n'"
          by blast
        with f show "bpe_value n \<le> bpe_value n'"
          by (simp add: scan_found_def)
        assume "k < Suc j"
        with k f show "bpe_value n < bpe_value n'"
          by (simp add: scan_found_def)
      qed
      then show ?thesis by blast
    qed
  next
    case (Some node)
    have split: "adj_node m ?xs k = Some n \<Longrightarrow>
        (k = 0 \<and> n = node) \<or> (\<exists>k'. k = Suc k' \<and> adj_node m (y # rest) k' = Some n)" for k n
      using Some by (cases k) (auto simp: adj_node_Cons_0 adj_node_Cons_Suc)
    show ?thesis
    proof (cases "minval st > bpe_value node")
      case True
      let ?st1 = "\<lparr>pos_it = Some i, minval = bpe_value node,
                  ori_id1 = fst x, ori_id2 = fst y, aim_id = bpe_id node\<rparr>"
      have run: "bpe_scan m ?xs i st = bpe_scan m (y # rest) (Suc i) ?st1"
        using Some True by simp
      from 1(2) [OF Some True] show ?thesis
      proof
        assume "scan_kept m (y # rest) ?st1 (bpe_scan m (y # rest) (Suc i) ?st1)"
        then have k: "bpe_scan m (y # rest) (Suc i) ?st1 = ?st1"
          and ge: "\<And>k n. adj_node m (y # rest) k = Some n \<Longrightarrow> bpe_value node \<le> bpe_value n"
          by (auto simp: scan_kept_def)
        have "scan_found m ?xs i st (bpe_scan m ?xs i st) 0 node"
          unfolding scan_found_def
        proof (intro conjI allI impI)
          show "adj_node m ?xs 0 = Some node"
            using Some by (simp add: adj_node_Cons_0)
          show "bpe_scan m ?xs i st = \<lparr>pos_it = Some (i + 0), minval = bpe_value node,
              ori_id1 = fst (?xs ! 0), ori_id2 = fst (?xs ! Suc 0), aim_id = bpe_id node\<rparr>"
            using run k by simp
          show "bpe_value node < minval st"
            using True by simp
        next
          fix k n' assume a: "adj_node m ?xs k = Some n'"
          from split [OF a] ge show "bpe_value node \<le> bpe_value n'"
            by auto
          assume "k < 0"
          then show "bpe_value node < bpe_value n'" by simp
        qed
        then show ?thesis by blast
      next
        assume "\<exists>j n. scan_found m (y # rest) (Suc i) ?st1
                        (bpe_scan m (y # rest) (Suc i) ?st1) j n"
        then obtain j n
          where f: "scan_found m (y # rest) (Suc i) ?st1 (bpe_scan m (y # rest) (Suc i) ?st1) j n"
          by blast
        then have lt: "bpe_value n < bpe_value node"
          by (simp add: scan_found_def)
        have "scan_found m ?xs i st (bpe_scan m ?xs i st) (Suc j) n"
          unfolding scan_found_def
        proof (intro conjI allI impI)
          show "adj_node m ?xs (Suc j) = Some n"
            using f by (simp add: scan_found_def adj_node_Cons_Suc)
          show "bpe_scan m ?xs i st = \<lparr>pos_it = Some (i + Suc j), minval = bpe_value n,
              ori_id1 = fst (?xs ! Suc j), ori_id2 = fst (?xs ! Suc (Suc j)),
              aim_id = bpe_id n\<rparr>"
            using f run by (simp add: scan_found_def)
          show "bpe_value n < minval st"
            using lt True by simp
        next
          fix k n' assume a: "adj_node m ?xs k = Some n'"
          from split [OF a] f lt show "bpe_value n \<le> bpe_value n'"
            by (auto simp: scan_found_def)
          assume "k < Suc j"
          with split [OF a] f lt show "bpe_value n < bpe_value n'"
            by (auto simp: scan_found_def)
        qed
        then show ?thesis by blast
      qed
    next
      case False
      have run: "bpe_scan m ?xs i st = bpe_scan m (y # rest) (Suc i) st"
        using Some False by simp
      from 1(3) [OF Some False] show ?thesis
      proof
        assume "scan_kept m (y # rest) st (bpe_scan m (y # rest) (Suc i) st)"
        then have "scan_kept m ?xs st (bpe_scan m ?xs i st)"
          using run split False unfolding scan_kept_def by fastforce
        then show ?thesis ..
      next
        assume "\<exists>j n. scan_found m (y # rest) (Suc i) st (bpe_scan m (y # rest) (Suc i) st) j n"
        then obtain j n
          where f: "scan_found m (y # rest) (Suc i) st (bpe_scan m (y # rest) (Suc i) st) j n"
          by blast
        then have lt: "bpe_value n < minval st"
          by (simp add: scan_found_def)
        have "scan_found m ?xs i st (bpe_scan m ?xs i st) (Suc j) n"
          unfolding scan_found_def
        proof (intro conjI allI impI)
          show "adj_node m ?xs (Suc j) = Some n"
            using f by (simp add: scan_found_def adj_node_Cons_Suc)
          show "bpe_scan m ?xs i st = \<lparr>pos_it = Some (i + Suc j), minval = bpe_value n,
              ori_id1 = fst (?xs ! Suc j), ori_id2 = fst (?xs ! Suc (Suc j)),
              aim_id = bpe_id n\<rparr>"
            using f run by (simp add: scan_found_def)
          show "bpe_value n < minval st"
            using lt by simp
        next
          fix k n' assume a: "adj_node m ?xs k = Some n'"
          from split [OF a] f lt False show "bpe_value n \<le> bpe_value n'"
            by (auto simp: scan_found_def)
          assume "k < Suc j"
          with split [OF a] f lt False show "bpe_value n < bpe_value n'"
            by (auto simp: scan_found_def)
        qed
        then show ?thesis by blast
      qed
    qed
  qed
qed (simp_all add: scan_kept_def adj_node_def)

lemma bpe_pass_None:
  assumes "bpe_pass m vals = None"
  shows "adj_node m vals k = Some n \<Longrightarrow> INT_MAX \<le> bpe_value n"
proof -
  let ?st = "bpe_scan m vals 0 bpe_init"
  assume a: "adj_node m vals k = Some n"
  from bpe_scan_spec [of m vals bpe_init 0] show ?thesis
  proof
    assume "scan_kept m vals bpe_init ?st"
    with a show ?thesis
      by (auto simp: scan_kept_def bpe_init_def)
  next
    assume "\<exists>j n. scan_found m vals 0 bpe_init ?st j n"
    then obtain j n' where f: "scan_found m vals 0 bpe_init ?st j n'"
      by blast
    then have p: "pos_it ?st = Some j" and "adj_node m vals j = Some n'"
      by (auto simp: scan_found_def)
    then have "Suc j < length vals"
      by (auto simp: adj_node_def split: if_splits)
    then have "drop j vals = vals ! j # vals ! Suc j # drop (Suc (Suc j)) vals"
      by (simp add: Cons_nth_drop_Suc Suc_lessD)
    with p assms show ?thesis
      by (simp add: bpe_pass_def Let_def)
  qed
qed

lemma bpe_pass_Some:
  assumes "bpe_pass m vals = Some vals'"
  shows "\<exists>j n. adj_node m vals j = Some n \<and>
           (\<forall>k n'. adj_node m vals k = Some n' \<longrightarrow>
              bpe_value n \<le> bpe_value n' \<and> (k < j \<longrightarrow> bpe_value n < bpe_value n')) \<and>
           vals' = take j vals @ (bpe_id n, snd (vals ! Suc j) + snd (vals ! j))
                     # bpe_fold (fst (vals ! j)) (fst (vals ! Suc j)) (bpe_id n)
                         (drop (j + 2) vals)"
proof -
  let ?st = "bpe_scan m vals 0 bpe_init"
  from bpe_scan_spec [of m vals bpe_init 0] show ?thesis
  proof
    assume "scan_kept m vals bpe_init ?st"
    then have "pos_it ?st = None"
      by (simp add: scan_kept_def bpe_init_def)
    with assms show ?thesis
      by (simp add: bpe_pass_def Let_def)
  next
    assume "\<exists>j n. scan_found m vals 0 bpe_init ?st j n"
    then obtain j n where f: "scan_found m vals 0 bpe_init ?st j n"
      by blast
    then have st: "?st = \<lparr>pos_it = Some j, minval = bpe_value n,
            ori_id1 = fst (vals ! j), ori_id2 = fst (vals ! Suc j), aim_id = bpe_id n\<rparr>"
      and adj: "adj_node m vals j = Some n"
      and least: "\<forall>k n'. adj_node m vals k = Some n' \<longrightarrow>
              bpe_value n \<le> bpe_value n' \<and> (k < j \<longrightarrow> bpe_value n < bpe_value n')"
      by (auto simp: scan_found_def)
    from adj have "Suc j < length vals"
      by (auto simp: adj_node_def split: if_splits)
    then have d: "drop j vals = vals ! j # vals ! Suc j # drop (j + 2) vals"
      by (simp add: Cons_nth_drop_Suc Suc_lessD)
    from assms have "vals' = take j vals @ (bpe_id n, snd (vals ! Suc j) + snd (vals ! j))
                     # bpe_fold (fst (vals ! j)) (fst (vals ! Suc j)) (bpe_id n)
                         (drop (j + 2) vals)"
      by (simp add: bpe_pass_def Let_def st d)
    with adj least show ?thesis
      by blast
  qed
qed

lemma bpe_pass_three:
  assumes "m (a, b) = Some n0" and "bpe_value n0 = 0"
    and "m (b, c) = Some n1" and "bpe_value n1 = 1"
  shows "bpe_pass m [(a, la), (b, lb), (c, lc)] = Some [(bpe_id n0, lb + la), (c, lc)]"
  using assms by (simp add: bpe_pass_def Let_def bpe_init_def INT_MAX_def)

lemma bpe_pass_short: "length vals < 2 \<Longrightarrow> bpe_pass m vals = None"
proof (cases vals)
  case Nil
  then show ?thesis by (simp add: bpe_pass_def bpe_init_def)
next
  case (Cons x xs)
  assume "length vals < 2"
  with Cons have "xs = []" by simp
  with Cons show ?thesis by (simp add: bpe_pass_def bpe_init_def)
qed

lemma bpe_unfold:
  "bpe m vals = (case bpe_pass m vals of None \<Rightarrow> vals | Some vals' \<Rightarrow> bpe m vals')"
proof (cases "length vals \<ge> 2")
  case True
  then show ?thesis by (simp add: bpe.simps [of m vals])
next
  case False
  then have "bpe_pass m vals = None"
    by (simp add: bpe_pass_short)
  with False show ?thesis by (simp add: bpe.simps [of m vals])
qed

lemma bpe_fixed: "bpe_pass m vals = None \<Longrightarrow> bpe m vals = vals"
  by (simp add: bpe_unfold [of m vals])

lemma bpe_stable: "bpe_pass m (bpe m vals) = None"
proof (induction m vals rule: bpe.induct)
  case (1 m vals)
  show ?case
  proof (cases "bpe_pass m vals")
    case None
    then show ?thesis by (simp add: bpe_fixed)
  next
    case (Some vals')
    show ?thesis
    proof (cases "length vals \<ge> 2")
      case True
      with Some 1 have "bpe_pass m (bpe m vals') = None"
        by simp
      with Some show ?thesis by (simp add: bpe_unfold [of m vals])
    next
      case False
      with Some show ?thesis by (simp add: bpe_pass_short)
    qed
  qed
qed

lemma bpe_fold_sum: "sum_list (map snd (bpe_fold o1 o2 aim vals)) = sum_list (map snd vals)"
  by (induction o1 o2 aim vals rule: bpe_fold.induct) auto

lemma bpe_pass_sum:
  assumes "bpe_pass m vals = Some vals'"
  shows "sum_list (map snd vals') = sum_list (map snd vals)"
proof -
  from bpe_pass_Some [OF assms] obtain j n
    where adj: "adj_node m vals j = Some n"
      and v: "vals' = take j vals @ (bpe_id n, snd (vals ! Suc j) + snd (vals ! j))
                     # bpe_fold (fst (vals ! j)) (fst (vals ! Suc j)) (bpe_id n)
                         (drop (j + 2) vals)"
    by blast
  from adj have "Suc j < length vals"
    by (auto simp: adj_node_def split: if_splits)
  then have d: "drop j vals = vals ! j # vals ! Suc j # drop (j + 2) vals"
    by (simp add: Cons_nth_drop_Suc Suc_lessD)
  have "sum_list (map snd vals) = sum_list (map snd (take j vals @ drop j vals))"
    by simp
  also have "\<dots> = sum_list (map snd (take j vals)) + (snd (vals ! j) + (snd (vals ! Suc j)
                    + sum_list (map snd (drop (j + 2) vals))))"
    unfolding d by simp
  finally show ?thesis
    by (simp add: v bpe_fold_sum)
qed

text \<open>
  C1. Every pass of the outer loop of \<^verbatim>\<open>bpe\<close> is \<open>bpe_pass\<close>. When the pass merges,
  the pair merged is an adjacent pair \<open>j\<close> of the list with a rule \<open>n\<close> in the table whose
  rank is the lowest of all adjacent pairs with a rule, and strictly lower than that of
  every such pair to its left: the leftmost pair of lowest rank. The two elements become
  one, with the id of the rule and the sum of the two lengths (the repeats of the same
  pair further right are folded by \<open>bpe_fold\<close>). The pass stops the loop only when no
  adjacent pair has a rule of a rank below \<^verbatim>\<open>INT_MAX\<close>. In particular, with the rules
  \<open>(a, b)\<close> of rank 0 and \<open>(b, c)\<close> of rank 1, the first pass on \<open>[a, b, c]\<close> merges
  \<open>(a, b)\<close>, and the loop goes on from \<open>[ab, c]\<close>.
\<close>

theorem bpe_merges_lowest_rank_leftmost:
  "bpe m vals = (case bpe_pass m vals of None \<Rightarrow> vals | Some vals' \<Rightarrow> bpe m vals') \<and>
   (case bpe_pass m vals of
      None \<Rightarrow> \<forall>k n. adj_node m vals k = Some n \<longrightarrow> INT_MAX \<le> bpe_value n
    | Some vals' \<Rightarrow>
        \<exists>j n. adj_node m vals j = Some n \<and>
          (\<forall>k n'. adj_node m vals k = Some n' \<longrightarrow>
             bpe_value n \<le> bpe_value n' \<and> (k < j \<longrightarrow> bpe_value n < bpe_value n')) \<and>
          vals' = take j vals @ (bpe_id n, snd (vals ! Suc j) + snd (vals ! j))
                    # bpe_fold (fst (vals ! j)) (fst (vals ! Suc j)) (bpe_id n)
                        (drop (j + 2) vals)) \<and>
   (m (a, b) = Some n0 \<and> bpe_value n0 = 0 \<and> m (b, c) = Some n1 \<and> bpe_value n1 = 1 \<longrightarrow>
      bpe_pass m [(a, la), (b, lb), (c, lc)] = Some [(bpe_id n0, lb + la), (c, lc)] \<and>
      bpe m [(a, la), (b, lb), (c, lc)] = bpe m [(bpe_id n0, lb + la), (c, lc)])"
proof (intro conjI impI)
  show "bpe m vals = (case bpe_pass m vals of None \<Rightarrow> vals | Some vals' \<Rightarrow> bpe m vals')"
    by (rule bpe_unfold)
next
  show "case bpe_pass m vals of
      None \<Rightarrow> \<forall>k n. adj_node m vals k = Some n \<longrightarrow> INT_MAX \<le> bpe_value n
    | Some vals' \<Rightarrow>
        \<exists>j n. adj_node m vals j = Some n \<and>
          (\<forall>k n'. adj_node m vals k = Some n' \<longrightarrow>
             bpe_value n \<le> bpe_value n' \<and> (k < j \<longrightarrow> bpe_value n < bpe_value n')) \<and>
          vals' = take j vals @ (bpe_id n, snd (vals ! Suc j) + snd (vals ! j))
                    # bpe_fold (fst (vals ! j)) (fst (vals ! Suc j)) (bpe_id n)
                        (drop (j + 2) vals)"
  proof (cases "bpe_pass m vals")
    case None
    then show ?thesis
      using bpe_pass_None [OF None] by simp
  next
    case (Some vals')
    then show ?thesis
      using bpe_pass_Some [OF Some] by simp
  qed
next
  assume a: "m (a, b) = Some n0 \<and> bpe_value n0 = 0 \<and> m (b, c) = Some n1 \<and> bpe_value n1 = 1"
  then show p: "bpe_pass m [(a, la), (b, lb), (c, lc)] = Some [(bpe_id n0, lb + la), (c, lc)]"
    by (simp add: bpe_pass_three)
  show "bpe m [(a, la), (b, lb), (c, lc)] = bpe m [(bpe_id n0, lb + la), (c, lc)]"
    by (simp add: bpe_unfold [of m "[(a, la), (b, lb), (c, lc)]"] p)
qed

theorem bpe_merges_lowest_rank_leftmost_witness:
  "bpe_pass ex_merges [(1, 1), (2, 1), (4, 1)] = Some [(3, 2), (4, 1)] \<and>
   bpe ex_merges [(1, 1), (2, 1), (4, 1)] = [(3, 2), (4, 1)]"
proof -
  have h: "ex_merges (1, 2) = Some \<lparr>bpe_id = 3, bpe_value = 0, bpe_length = 2\<rparr> \<and>
      bpe_value \<lparr>bpe_id = 3, bpe_value = 0, bpe_length = 2\<rparr> = 0 \<and>
      ex_merges (2, 4) = Some \<lparr>bpe_id = 5, bpe_value = 1, bpe_length = 2\<rparr> \<and>
      bpe_value \<lparr>bpe_id = 5, bpe_value = 1, bpe_length = 2\<rparr> = 1"
    by (simp add: ex_merges_def)
  have stop: "bpe_pass ex_merges [(3, 2), (4, 1)] = None"
    by (simp add: bpe_pass_def Let_def bpe_init_def ex_merges_def)
  from bpe_merges_lowest_rank_leftmost
         [of ex_merges "[(3, 2), (4, 1)]" 1 2 "\<lparr>bpe_id = 3, bpe_value = 0, bpe_length = 2\<rparr>"
            4 "\<lparr>bpe_id = 5, bpe_value = 1, bpe_length = 2\<rparr>" 1 1 1] h stop
  show ?thesis by simp
qed

text \<open>
  C9. A list on which a pass of \<^verbatim>\<open>bpe\<close> finds no pair to merge is returned as it is; the
  list \<^verbatim>\<open>bpe\<close> returns is such a list; so \<^verbatim>\<open>bpe\<close> applied to its own result returns it
  unchanged.
\<close>

theorem bpe_idempotent:
  "(bpe_pass m vals = None \<longrightarrow> bpe m vals = vals) \<and>
   bpe_pass m (bpe m vals) = None \<and>
   bpe m (bpe m vals) = bpe m vals"
  by (simp add: bpe_fixed bpe_stable)

theorem bpe_idempotent_witness:
  "bpe_pass ex_merges [(3, 2), (4, 1)] = None \<and>
   bpe ex_merges [(3, 2), (4, 1)] = [(3, 2), (4, 1)] \<and>
   bpe ex_merges (bpe ex_merges [(3, 2), (4, 1)]) = [(3, 2), (4, 1)]"
proof -
  have stop: "bpe_pass ex_merges [(3, 2), (4, 1)] = None"
    by (simp add: bpe_pass_def Let_def bpe_init_def ex_merges_def)
  from bpe_idempotent [of ex_merges "[(3, 2), (4, 1)]"] stop
  show ?thesis by simp
qed

text \<open>Read as signed numbers, two lengths that are not negative add up without wrapping
  when their sum is at most \<^verbatim>\<open>INT_MAX\<close>.\<close>

lemma sint_add_fit:
  fixes a b :: int32
  assumes "0 \<le> sint a" and "0 \<le> sint b" and "sint a + sint b \<le> INT_MAX"
  shows "sint (a + b) = sint a + sint b"
proof -
  have "sint (a + b) = signed_take_bit 31 (sint a + sint b)"
    by (simp add: sint_word_ariths)
  also have "\<dots> = sint a + sint b"
    using assms by (simp add: signed_take_bit_int_eq_self INT_MAX_def)
  finally show ?thesis .
qed

lemma sint_sum_nonneg:
  "list_all (\<lambda>p. 0 \<le> sint (snd p)) (vals :: (int \<times> int32) list) \<Longrightarrow>
     0 \<le> sum_list (map (\<lambda>p. sint (snd p)) vals)"
  by (induction vals) auto

lemma bpe_fold_fit:
  assumes "list_all (\<lambda>p. 0 \<le> sint (snd p)) vals"
    and "sum_list (map (\<lambda>p. sint (snd p)) vals) \<le> INT_MAX"
  shows "list_all (\<lambda>p. 0 \<le> sint (snd p)) (bpe_fold o1 o2 aim vals) \<and>
         sum_list (map (\<lambda>p. sint (snd p)) (bpe_fold o1 o2 aim vals))
           = sum_list (map (\<lambda>p. sint (snd p)) vals)"
  using assms
proof (induction o1 o2 aim vals rule: bpe_fold.induct)
  case (1 o1 o2 aim x y rest)
  from "1.prems" have nx: "0 \<le> sint (snd x)" and ny: "0 \<le> sint (snd y)"
    and nr: "list_all (\<lambda>p. 0 \<le> sint (snd p)) rest"
    by simp_all
  from nr have sr: "0 \<le> sum_list (map (\<lambda>p. sint (snd p)) rest)"
    by (rule sint_sum_nonneg)
  from "1.prems"(2)
  have tot: "sint (snd x) + (sint (snd y) + sum_list (map (\<lambda>p. sint (snd p)) rest)) \<le> INT_MAX"
    by simp
  show ?case
  proof (cases "fst x \<noteq> o1 \<or> fst y \<noteq> o2")
    case True
    have "list_all (\<lambda>p. 0 \<le> sint (snd p)) (y # rest)"
      using ny nr by simp
    moreover have "sum_list (map (\<lambda>p. sint (snd p)) (y # rest)) \<le> INT_MAX"
      using tot nx by simp
    ultimately have ih: "list_all (\<lambda>p. 0 \<le> sint (snd p)) (bpe_fold o1 o2 aim (y # rest)) \<and>
         sum_list (map (\<lambda>p. sint (snd p)) (bpe_fold o1 o2 aim (y # rest)))
           = sum_list (map (\<lambda>p. sint (snd p)) (y # rest))"
      using True "1.IH"(1,2) by blast
    have "bpe_fold o1 o2 aim (x # y # rest) = x # bpe_fold o1 o2 aim (y # rest)"
      using True by auto
    with ih nx show ?thesis
      by simp
  next
    case False
    then have eq: "fst x = o1" "fst y = o2"
      by simp_all
    have "sum_list (map (\<lambda>p. sint (snd p)) rest) \<le> INT_MAX"
      using tot nx ny by simp
    with nr eq "1.IH"(3)
    have ih: "list_all (\<lambda>p. 0 \<le> sint (snd p)) (bpe_fold o1 o2 aim rest) \<and>
         sum_list (map (\<lambda>p. sint (snd p)) (bpe_fold o1 o2 aim rest))
           = sum_list (map (\<lambda>p. sint (snd p)) rest)"
      by simp
    have "sint (snd y) + sint (snd x) \<le> INT_MAX"
      using tot sr by simp
    with nx ny have s: "sint (snd y + snd x) = sint (snd y) + sint (snd x)"
      by (simp add: sint_add_fit)
    have "bpe_fold o1 o2 aim (x # y # rest) = (aim, snd y + snd x) # bpe_fold o1 o2 aim rest"
      using eq by simp
    with ih s nx ny show ?thesis
      by simp
  qed
qed simp_all

lemma bpe_pass_fit:
  assumes "bpe_pass m vals = Some vals'"
    and "list_all (\<lambda>p. 0 \<le> sint (snd p)) vals"
    and "sum_list (map (\<lambda>p. sint (snd p)) vals) \<le> INT_MAX"
  shows "list_all (\<lambda>p. 0 \<le> sint (snd p)) vals' \<and>
         sum_list (map (\<lambda>p. sint (snd p)) vals') = sum_list (map (\<lambda>p. sint (snd p)) vals)"
proof -
  let ?f = "\<lambda>p :: int \<times> int32. sint (snd p)"
  let ?nn = "list_all (\<lambda>p :: int \<times> int32. 0 \<le> sint (snd p))"
  from bpe_pass_Some [OF assms(1)] obtain j n
    where adj: "adj_node m vals j = Some n"
      and v: "vals' = take j vals @ (bpe_id n, snd (vals ! Suc j) + snd (vals ! j))
                     # bpe_fold (fst (vals ! j)) (fst (vals ! Suc j)) (bpe_id n)
                         (drop (j + 2) vals)"
    by blast
  define pre where "pre = take j vals"
  define x where "x = vals ! j"
  define y where "y = vals ! Suc j"
  define rest where "rest = drop (j + 2) vals"
  from adj have "Suc j < length vals"
    by (auto simp: adj_node_def split: if_splits)
  then have "drop j vals = x # y # rest"
    by (simp add: Cons_nth_drop_Suc Suc_lessD x_def y_def rest_def)
  then have "take j vals @ x # y # rest = vals"
    by (metis append_take_drop_id)
  then have vals: "vals = pre @ x # y # rest"
    by (simp add: pre_def)
  from assms(2) have np: "?nn pre" and nx: "0 \<le> sint (snd x)" and ny: "0 \<le> sint (snd y)"
    and nr: "?nn rest"
    by (simp_all add: vals)
  from assms(3)
  have tot: "sum_list (map ?f pre) + (sint (snd x) + (sint (snd y) + sum_list (map ?f rest)))
               \<le> INT_MAX"
    by (simp add: vals)
  have sp: "0 \<le> sum_list (map ?f pre)" and sr: "0 \<le> sum_list (map ?f rest)"
    using np nr by (simp_all add: sint_sum_nonneg)
  have "sum_list (map ?f rest) \<le> INT_MAX"
    using tot sp nx ny by simp
  from bpe_fold_fit [OF nr this, of "fst x" "fst y" "bpe_id n"]
  have fold: "?nn (bpe_fold (fst x) (fst y) (bpe_id n) rest)"
    "sum_list (map ?f (bpe_fold (fst x) (fst y) (bpe_id n) rest)) = sum_list (map ?f rest)"
    by simp_all
  have "sint (snd y) + sint (snd x) \<le> INT_MAX"
    using tot sp sr by simp
  with nx ny have s: "sint (snd y + snd x) = sint (snd y) + sint (snd x)"
    by (simp add: sint_add_fit)
  have v': "vals' = pre @ (bpe_id n, snd y + snd x) # bpe_fold (fst x) (fst y) (bpe_id n) rest"
    using v by (simp add: pre_def x_def y_def rest_def)
  show ?thesis
    using np nx ny fold s by (simp add: v' vals)
qed

lemma bpe_fit:
  "list_all (\<lambda>p. 0 \<le> sint (snd p)) vals \<Longrightarrow>
   sum_list (map (\<lambda>p. sint (snd p)) vals) \<le> INT_MAX \<Longrightarrow>
     list_all (\<lambda>p. 0 \<le> sint (snd p)) (bpe m vals) \<and>
     sum_list (map (\<lambda>p. sint (snd p)) (bpe m vals)) = sum_list (map (\<lambda>p. sint (snd p)) vals)"
proof (induction m vals rule: bpe.induct)
  case (1 m vals)
  show ?case
  proof (cases "bpe_pass m vals")
    case None
    with "1.prems" show ?thesis by (simp add: bpe_fixed)
  next
    case (Some vals')
    show ?thesis
    proof (cases "length vals \<ge> 2")
      case True
      from bpe_pass_fit [OF Some "1.prems"]
      have f: "list_all (\<lambda>p. 0 \<le> sint (snd p)) vals'"
        "sum_list (map (\<lambda>p. sint (snd p)) vals') = sum_list (map (\<lambda>p. sint (snd p)) vals)"
        by simp_all
      with "1.prems"(2) have "sum_list (map (\<lambda>p. sint (snd p)) vals') \<le> INT_MAX"
        by simp
      from "1.IH" [OF True Some f(1) this] f(2) Some show ?thesis
        by (simp add: bpe_unfold [of m vals])
    next
      case False
      with Some show ?thesis by (simp add: bpe_pass_short)
    qed
  qed
qed

lemma bpe_sum:
  "sum_list (map snd (bpe m vals)) = sum_list (map snd vals)"
proof (induction m vals rule: bpe.induct)
  case (1 m vals)
  show ?case
  proof (cases "bpe_pass m vals")
    case None
    then show ?thesis by (simp add: bpe_fixed)
  next
    case (Some vals')
    show ?thesis
    proof (cases "length vals \<ge> 2")
      case True
      with Some 1 have "sum_list (map snd (bpe m vals')) = sum_list (map snd vals')"
        by simp
      with Some show ?thesis
        by (simp add: bpe_unfold [of m vals] bpe_pass_sum)
    next
      case False
      with Some show ?thesis by (simp add: bpe_pass_short)
    qed
  qed
qed

lemma ex_bpe_three: "bpe ex_merges [(1, 1), (2, 1), (4, 1)] = [(3, 2), (4, 1)]"
proof -
  have "bpe_pass ex_merges [(1, 1), (2, 1), (4, 1)] = Some [(3, 2), (4, 1)]"
    by (simp add: bpe_pass_def Let_def bpe_init_def ex_merges_def INT_MAX_def)
  moreover have "bpe_pass ex_merges [(3, 2), (4, 1)] = None"
    by (simp add: bpe_pass_def Let_def bpe_init_def ex_merges_def)
  ultimately show ?thesis
    by (simp add: bpe_unfold [of ex_merges "[(1, 1), (2, 1), (4, 1)]"]
          bpe_unfold [of ex_merges "[(3, 2), (4, 1)]"])
qed

text \<open>
  C10. \<^verbatim>\<open>bpe\<close> keeps the sum of the lengths: for every list, the second components of
  the list it returns add up to what those of its argument add up to, and so they do
  after every single pass, which puts the sum of two lengths in the place of the two. The
  sums are those of the 32-bit lengths. When no length is negative and the lengths add
  up to at most \<^verbatim>\<open>INT_MAX\<close>, nothing wraps: no length of the result is negative, and
  the sums are equal as sums of integers.
\<close>

theorem bpe_preserves_length_sum:
  "sum_list (map snd (bpe m vals)) = sum_list (map snd vals) \<and>
   (bpe_pass m vals = Some vals' \<longrightarrow> sum_list (map snd vals') = sum_list (map snd vals)) \<and>
   (list_all (\<lambda>p. 0 \<le> sint (snd p)) vals \<and>
    sum_list (map (\<lambda>p. sint (snd p)) vals) \<le> INT_MAX \<longrightarrow>
      list_all (\<lambda>p. 0 \<le> sint (snd p)) (bpe m vals) \<and>
      sum_list (map (\<lambda>p. sint (snd p)) (bpe m vals))
        = sum_list (map (\<lambda>p. sint (snd p)) vals))"
  using bpe_sum bpe_pass_sum bpe_fit by blast

theorem bpe_preserves_length_sum_witness:
  "sum_list (map snd (bpe ex_merges [(1, 1), (2, 1), (4, 1)])) = 3 \<and>
   bpe ex_merges [(1, 1), (2, 1), (4, 1)] = [(3, 2), (4, 1)] \<and>
   sum_list (map (\<lambda>p. sint (snd p)) (bpe ex_merges [(1, 1), (2, 1), (4, 1)])) = 3"
  using bpe_preserves_length_sum [of ex_merges "[(1, 1), (2, 1), (4, 1)]"]
  by (simp add: INT_MAX_def ex_bpe_three)

text \<open>
  The hypothesis on the integer sums is needed. A length of \<^verbatim>\<open>INT_MAX\<close> and a length of 1
  merge into a length that, read as a signed number, is the least \<^verbatim>\<open>int\<close>: the sums of
  the 32-bit lengths are equal, those of the integers they stand for are not.
\<close>

lemma bpe_length_wraps:
  "bpe ex_merges [(1, 2147483647), (2, 1)] = [(3, 2147483648)] \<and>
   sint (2147483647 :: int32) + sint (1 :: int32) = 2147483648 \<and>
   sint (2147483648 :: int32) = - 2147483648"
proof -
  have "bpe_pass ex_merges [(1, 2147483647), (2, 1)] = Some [(3, 2147483648)]"
    by (simp add: bpe_pass_def Let_def bpe_init_def ex_merges_def INT_MAX_def)
  moreover have "bpe_pass ex_merges [(3, 2147483648)] = None"
    by (simp add: bpe_pass_short)
  ultimately have "bpe ex_merges [(1, 2147483647), (2, 1)] = [(3, 2147483648)]"
    by (simp add: bpe_unfold [of ex_merges "[(1, 2147483647), (2, 1)]"]
          bpe_unfold [of ex_merges "[(3, 2147483648)]"])
  then show ?thesis
    by simp
qed

section \<open>Properties of \<^verbatim>\<open>Load\<close>\<close>

lemma GetVocabIndex_Inr: "GetVocabIndex v s = Inr n \<longleftrightarrow> map_of v s = Some n"
  by (simp add: GetVocabIndex_def split: option.splits)

lemma GetVocabIndex_Inl:
  "GetVocabIndex v s = Inl e \<longleftrightarrow>
     map_of v s = None \<and> e = InvalidArgument (''Cannot find word in vocabulary: '' @ s)"
  by (auto simp: GetVocabIndex_def split: option.splits)

lemma encode_own_Inr:
  "encode_own enc v is be = Inr be' \<Longrightarrow>
     (\<forall>i \<in> set is. map_of v (enc i) = Some (be' i)) \<and> (\<forall>i. i \<notin> set is \<longrightarrow> be' i = be i)"
proof (induction "is" arbitrary: be)
  case Nil
  then show ?case by simp
next
  case (Cons i "is")
  from Cons.prems obtain n where n: "map_of v (enc i) = Some n"
    and run: "encode_own enc v is (be(i := n)) = Inr be'"
    by (auto simp: GetVocabIndex_Inr split: sum.splits)
  from Cons.IH [OF run] have ih1: "\<forall>j \<in> set is. map_of v (enc j) = Some (be' j)"
    and ih2: "\<forall>j. j \<notin> set is \<longrightarrow> be' j = (be(i := n)) j"
    by auto
  have "map_of v (enc i) = Some (be' i)"
  proof (cases "i \<in> set is")
    case True
    with ih1 show ?thesis by simp
  next
    case False
    with ih2 have "be' i = n" by simp
    with n show ?thesis by simp
  qed
  with ih1 ih2 show ?case by auto
qed

lemma encode_own_succeeds:
  "(\<forall>i \<in> set is. map_of v (enc i) \<noteq> None) \<Longrightarrow> \<exists>be'. encode_own enc v is be = Inr be'"
proof (induction "is" arbitrary: be)
  case Nil
  then show ?case by simp
next
  case (Cons i "is")
  then obtain n where "map_of v (enc i) = Some n" by auto
  then have "GetVocabIndex v (enc i) = Inr n" by (simp add: GetVocabIndex_Inr)
  with Cons show ?case by simp
qed

lemma encode_indexed_Inr:
  "encode_indexed enc v is index be = Inr (be', index') \<Longrightarrow> distinct is \<Longrightarrow>
     index' = index + length is \<and>
     (\<forall>k < length is. map_of v (enc (index + k)) = Some (be' (is ! k))) \<and>
     (\<forall>i. i \<notin> set is \<longrightarrow> be' i = be i)"
proof (induction "is" arbitrary: be index)
  case Nil
  then show ?case by simp
next
  case (Cons i "is")
  from Cons.prems obtain n where n: "map_of v (enc index) = Some n"
    and run: "encode_indexed enc v is (index + 1) (be(i := n)) = Inr (be', index')"
    by (auto simp: GetVocabIndex_Inr split: sum.splits)
  from Cons.prems have d: "distinct is" and ni: "i \<notin> set is"
    by auto
  from Cons.IH [OF run d] have ih0: "index' = index + 1 + length is"
    and ih1: "\<forall>k < length is. map_of v (enc (index + 1 + k)) = Some (be' (is ! k))"
    and ih2: "\<forall>j. j \<notin> set is \<longrightarrow> be' j = (be(i := n)) j"
    by auto
  have "map_of v (enc (index + k)) = Some (be' ((i # is) ! k))" if "k < length (i # is)" for k
  proof (cases k)
    case 0
    from ih2 ni have "be' i = n" by simp
    with n 0 show ?thesis by simp
  next
    case (Suc k')
    with that ih1 show ?thesis by simp
  qed
  with ih0 ih2 show ?case by auto
qed

lemma encode_indexed_succeeds:
  "(\<forall>k < length is. map_of v (enc (index + k)) \<noteq> None) \<Longrightarrow>
     \<exists>be'. encode_indexed enc v is index be = Inr (be', index + length is)"
proof (induction "is" arbitrary: be index)
  case Nil
  then show ?case by simp
next
  case (Cons i "is")
  from Cons.prems have "map_of v (enc (index + 0)) \<noteq> None" by blast
  then obtain n where "map_of v (enc index) = Some n" by auto
  then have g: "GetVocabIndex v (enc index) = Inr n" by (simp add: GetVocabIndex_Inr)
  have "\<forall>k < length is. map_of v (enc (index + 1 + k)) \<noteq> None"
  proof (intro allI impI)
    fix k assume "k < length is"
    then have "Suc k < length (i # is)" by simp
    with Cons.prems have "map_of v (enc (index + Suc k)) \<noteq> None" by blast
    then show "map_of v (enc (index + 1 + k)) \<noteq> None" by simp
  qed
  from Cons.IH [OF this, of "be(i := n)"] obtain be'
    where "encode_indexed enc v is (index + 1) (be(i := n)) = Inr (be', index + 1 + length is)"
    by blast
  with g have "encode_indexed enc v (i # is) index be = Inr (be', index + length (i # is))"
    by simp
  then show ?case by blast
qed

lemma Load_byte_encoder_Inr:
  assumes "Load_byte_encoder enc v = Inr be"
  shows "\<forall>b. 33 \<le> b \<and> b \<le> 126 \<or> 161 \<le> b \<and> b \<le> 172 \<or> 174 \<le> b \<and> b \<le> 255 \<longrightarrow>
            map_of v (enc b) = Some (be b)"
    and "\<forall>b \<le> 32. map_of v (enc (256 + b)) = Some (be b)"
    and "\<forall>b. 127 \<le> b \<and> b \<le> 160 \<longrightarrow> map_of v (enc (289 + (b - 127))) = Some (be b)"
    and "map_of v (enc 323) = Some (be 173)"
    and "\<forall>b \<ge> 256. be b = 0"
proof -
  note upt_rec_numeral [simp del]
  from assms obtain be1 be2 be3 be4 be5 i4 i5 i6
    where e1: "encode_own enc v [33..<127] (\<lambda>i. 0) = Inr be1"
      and e2: "encode_own enc v [161..<173] be1 = Inr be2"
      and e3: "encode_own enc v [174..<256] be2 = Inr be3"
      and e4: "encode_indexed enc v [0..<33] 256 be3 = Inr (be4, i4)"
      and e5: "encode_indexed enc v [127..<161] i4 be4 = Inr (be5, i5)"
      and e6: "encode_indexed enc v [173] i5 be5 = Inr (be, i6)"
    by (auto simp: Load_byte_encoder_def split: sum.splits)
  note p1 = encode_own_Inr [OF e1] and p2 = encode_own_Inr [OF e2]
    and p3 = encode_own_Inr [OF e3]
  have p4: "i4 = 289 \<and> (\<forall>k < 33. map_of v (enc (256 + k)) = Some (be4 ([0..<33] ! k))) \<and>
     (\<forall>i. i \<notin> set [0..<33] \<longrightarrow> be4 i = be3 i)"
    using encode_indexed_Inr [OF e4] by simp
  then have i4: "i4 = 289" by simp
  have p5: "i5 = 323 \<and> (\<forall>k < 34. map_of v (enc (289 + k)) = Some (be5 ([127..<161] ! k))) \<and>
     (\<forall>i. i \<notin> set [127..<161] \<longrightarrow> be5 i = be4 i)"
    using encode_indexed_Inr [OF e5] i4 by simp
  then have i5: "i5 = 323" by simp
  have p6: "map_of v (enc 323) = Some (be 173) \<and> (\<forall>i. i \<noteq> 173 \<longrightarrow> be i = be5 i)"
    using encode_indexed_Inr [OF e6] i5 by simp
  show "map_of v (enc 323) = Some (be 173)"
    using p6 by simp
  show "\<forall>b \<le> 32. map_of v (enc (256 + b)) = Some (be b)"
  proof (intro allI impI)
    fix b :: nat assume b: "b \<le> 32"
    then have "map_of v (enc (256 + b)) = Some (be4 b)"
      using p4 by simp
    moreover have "be b = be4 b"
      using p5 p6 b by simp
    ultimately show "map_of v (enc (256 + b)) = Some (be b)" by simp
  qed
  show "\<forall>b. 127 \<le> b \<and> b \<le> 160 \<longrightarrow> map_of v (enc (289 + (b - 127))) = Some (be b)"
  proof (intro allI impI)
    fix b :: nat assume b: "127 \<le> b \<and> b \<le> 160"
    then have "b - 127 < 34" by linarith
    with p5 have "map_of v (enc (289 + (b - 127))) = Some (be5 ([127..<161] ! (b - 127)))"
      by blast
    moreover have "[127..<161] ! (b - 127) = b"
      using b by simp
    moreover have "be b = be5 b"
      using p6 b by simp
    ultimately show "map_of v (enc (289 + (b - 127))) = Some (be b)" by simp
  qed
  show "\<forall>b. 33 \<le> b \<and> b \<le> 126 \<or> 161 \<le> b \<and> b \<le> 172 \<or> 174 \<le> b \<and> b \<le> 255 \<longrightarrow>
            map_of v (enc b) = Some (be b)"
  proof (intro allI impI)
    fix b :: nat
    assume b: "33 \<le> b \<and> b \<le> 126 \<or> 161 \<le> b \<and> b \<le> 172 \<or> 174 \<le> b \<and> b \<le> 255"
    then have same: "be b = be3 b"
      using p4 p5 p6 by auto
    from b consider "33 \<le> b \<and> b \<le> 126" | "161 \<le> b \<and> b \<le> 172" | "174 \<le> b \<and> b \<le> 255"
      by blast
    then have "map_of v (enc b) = Some (be3 b)"
    proof cases
      case 1
      then have "map_of v (enc b) = Some (be1 b)" using p1 by simp
      moreover have "be3 b = be1 b" using p2 p3 1 by simp
      ultimately show ?thesis by simp
    next
      case 2
      then have "map_of v (enc b) = Some (be2 b)" using p2 by simp
      moreover have "be3 b = be2 b" using p3 2 by simp
      ultimately show ?thesis by simp
    next
      case 3
      then show ?thesis using p3 by simp
    qed
    with same show "map_of v (enc b) = Some (be b)" by simp
  qed
  show "\<forall>b \<ge> 256. be b = 0"
    using p1 p2 p3 p4 p5 p6 by auto
qed


lemma utf8_encode_inj: "a < 324 \<Longrightarrow> b < 324 \<Longrightarrow> utf8_encode a = utf8_encode b \<Longrightarrow> a = b"
proof -
  assume a: "a < 324" and b: "b < 324" and e: "utf8_encode a = utf8_encode b"
  show "a = b"
  proof (cases "a < 128")
    case True
    with e b have "b < 128" and "char_of a = char_of b"
      by (auto simp: utf8_encode_def split: if_splits)
    with True show ?thesis by simp
  next
    case False
    with e a b have b128: "\<not> b < 128"
      and c1: "(192 + a div 64) mod 256 = (192 + b div 64) mod 256"
      and c2: "(128 + a mod 64) mod 256 = (128 + b mod 64) mod 256"
      by (auto simp: utf8_encode_def split: if_splits)
    have da: "a div 64 < 6" and db: "b div 64 < 6"
      using a b by (simp_all add: less_mult_imp_div_less)
    have "(192 + a div 64) mod 256 = 192 + a div 64" "(192 + b div 64) mod 256 = 192 + b div 64"
      using da db by simp_all
    with c1 have d: "a div 64 = b div 64" by simp
    have "a mod 64 < 64" "b mod 64 < 64" by simp_all
    then have "(128 + a mod 64) mod 256 = 128 + a mod 64"
      "(128 + b mod 64) mod 256 = 128 + b mod 64"
      by simp_all
    with c2 have "a mod 64 = b mod 64" by simp
    with d show ?thesis by (metis div_mult_mod_eq)
  qed
qed

lemma map_of_map_inj:
  "inj_on f (set xs) \<Longrightarrow> k \<in> set xs \<Longrightarrow> map_of (map (\<lambda>k. (f k, g k)) xs) (f k) = Some (g k)"
  by (induction xs) (auto simp: inj_on_def)

lemma utf8_encode_short: "cp < 324 \<Longrightarrow> length s \<ge> 2 \<Longrightarrow> of_char (hd s) < (128::nat) \<Longrightarrow> utf8_encode cp \<noteq> s"
proof
  assume cp: "cp < 324" and l: "length s \<ge> 2" and h: "of_char (hd s) < (128::nat)"
    and e: "utf8_encode cp = s"
  show False
  proof (cases "cp < 128")
    case True
    with e l show False by (auto simp: utf8_encode_def)
  next
    case False
    with e cp have "hd s = char_of (192 + cp div 64)"
      by (auto simp: utf8_encode_def)
    then have "of_char (hd s) = (192 + cp div 64) mod 256"
      by simp
    moreover have "cp div 64 < 6"
      using cp by (simp add: less_mult_imp_div_less)
    then have "(192 + cp div 64) mod 256 = 192 + cp div 64"
      by simp
    ultimately show False using h by simp
  qed
qed

lemma ex_words_keys: "w \<in> fst ` set ex_words \<Longrightarrow> length w \<ge> 2 \<and> of_char (hd w) < (128::nat)"
  by (auto simp: ex_words_def)

lemma ex_vocab_byte: "cp < 324 \<Longrightarrow> map_of ex_vocab (utf8_encode cp) = Some (int cp)"
proof -
  assume cp: "cp < 324"
  have "inj_on utf8_encode (set [0..<324])"
    by (rule inj_onI) (simp add: utf8_encode_inj del: upt_rec_numeral)
  then have "map_of (map (\<lambda>cp. (utf8_encode cp, int cp)) [0..<324]) (utf8_encode cp) = Some (int cp)"
    using cp by (intro map_of_map_inj) (simp_all del: upt_rec_numeral)
  moreover have "utf8_encode cp \<notin> fst ` set ex_words"
    using ex_words_keys utf8_encode_short [OF cp] by blast
  then have "map_of ex_words (utf8_encode cp) = None"
    by (simp only: map_of_eq_None_iff not_False_eq_True)
  ultimately show ?thesis
    by (simp add: ex_vocab_def map_add_def del: upt_rec_numeral)
qed

lemma ex_vocab_word: "map_of ex_words s = Some i \<Longrightarrow> map_of ex_vocab s = Some i"
  by (simp add: ex_vocab_def map_add_def del: upt_rec_numeral)

lemma ex_vocab_absent:
  "length s \<ge> 2 \<Longrightarrow> of_char (hd s) < (128::nat) \<Longrightarrow> map_of ex_words s = None \<Longrightarrow>
     map_of ex_vocab s = None"
proof -
  assume l: "length s \<ge> 2" and h: "of_char (hd s) < (128::nat)"
    and n: "map_of ex_words s = None"
  have "s \<notin> fst ` set (map (\<lambda>cp. (utf8_encode cp, int cp)) [0..<324])"
  proof
    assume "s \<in> fst ` set (map (\<lambda>cp. (utf8_encode cp, int cp)) [0..<324])"
    then obtain cp where "cp < 324" and "s = utf8_encode cp"
      by (auto simp del: upt_rec_numeral)
    with utf8_encode_short [OF _ l h] show False by blast
  qed
  then have "map_of (map (\<lambda>cp. (utf8_encode cp, int cp)) [0..<324]) s = None"
    by (simp only: map_of_eq_None_iff not_False_eq_True)
  with n show ?thesis
    by (simp add: ex_vocab_def map_add_def del: upt_rec_numeral)
qed

lemma filter_upt_all: "(\<And>k. i \<le> k \<Longrightarrow> k < j \<Longrightarrow> P k) \<Longrightarrow> filter P [i..<j] = [i..<j]"
  by (simp add: filter_id_conv)

lemma filter_upt_none: "(\<And>k. i \<le> k \<Longrightarrow> k < j \<Longrightarrow> \<not> P k) \<Longrightarrow> filter P [i..<j] = []"
  by (simp add: filter_empty_conv)

lemma upt_split: "i \<le> j \<Longrightarrow> j \<le> k \<Longrightarrow> [i..<k] = [i..<j] @ [j..<k]"
  by (metis le_Suc_ex upt_add_eq_append)

lemma nonprintable_bytes_eq: "nonprintable_bytes = [0..<33] @ [127..<161] @ [173]"
proof -
  note upt_rec_numeral [simp del]
  have "[0..<256] = [0..<33] @ [33..<256]" by (rule upt_split) simp_all
  also have "[33..<256] = [33..<127] @ [127..<256]" by (rule upt_split) simp_all
  also have "[127..<256] = [127..<161] @ [161..<256]" by (rule upt_split) simp_all
  also have "[161..<256] = [161..<173] @ [173..<256]" by (rule upt_split) simp_all
  also have "[173..<256] = [173..<174] @ [174..<256]" by (rule upt_split) simp_all
  also have "[173..<174] = [173::nat]" by (simp add: upt_conv_Cons)
  finally have split:
    "[0..<256] = [0..<33] @ [33..<127] @ [127..<161] @ [161..<173] @ [173] @ [174..<256]" .
  show ?thesis
    unfolding nonprintable_bytes_def split filter_append
    by (simp add: filter_upt_all filter_upt_none printable_def)
qed

lemma nonprintable_bytes_length: "length nonprintable_bytes = 68"
  by (simp add: nonprintable_bytes_eq del: upt_rec_numeral)

lemma Load_byte_encoder_succeeds:
  assumes "\<forall>cp. printable cp \<or> 256 \<le> cp \<and> cp < 324 \<longrightarrow> map_of v (enc cp) \<noteq> None"
  shows "\<exists>be. Load_byte_encoder enc v = Inr be"
proof -
  note upt_rec_numeral [simp del]
  have "\<forall>i \<in> set [33..<127]. map_of v (enc i) \<noteq> None"
    using assms by (simp add: printable_def)
  from encode_own_succeeds [OF this] obtain be1
    where e1: "encode_own enc v [33..<127] (\<lambda>i. 0) = Inr be1" by blast
  have "\<forall>i \<in> set [161..<173]. map_of v (enc i) \<noteq> None"
    using assms by (simp add: printable_def)
  from encode_own_succeeds [OF this] obtain be2
    where e2: "encode_own enc v [161..<173] be1 = Inr be2" by blast
  have "\<forall>i \<in> set [174..<256]. map_of v (enc i) \<noteq> None"
    using assms by (simp add: printable_def)
  from encode_own_succeeds [OF this] obtain be3
    where e3: "encode_own enc v [174..<256] be2 = Inr be3" by blast
  have "\<forall>k < length [0..<33]. map_of v (enc (256 + k)) \<noteq> None"
    using assms by simp
  from encode_indexed_succeeds [OF this] obtain be4
    where e4: "encode_indexed enc v [0..<33] 256 be3 = Inr (be4, 289)" by auto
  have "\<forall>k < length [127..<161]. map_of v (enc (289 + k)) \<noteq> None"
    using assms by simp
  from encode_indexed_succeeds [OF this] obtain be5
    where e5: "encode_indexed enc v [127..<161] 289 be4 = Inr (be5, 323)" by auto
  have "\<forall>k < length [173::nat]. map_of v (enc (323 + k)) \<noteq> None"
    using assms by simp
  from encode_indexed_succeeds [OF this] obtain be6
    where e6: "encode_indexed enc v [173] 323 be5 = Inr (be6, 324)" by auto
  show ?thesis
    unfolding Load_byte_encoder_def by (simp only: e1 e2 e3 e4 e5 e6 sum.case prod.case) blast
qed

lemma ex_vocab_encoder: "\<exists>be. Load_byte_encoder utf8_encode ex_vocab = Inr be"
proof (rule Load_byte_encoder_succeeds, intro allI impI)
  fix cp assume "printable cp \<or> 256 \<le> cp \<and> cp < 324"
  then have "cp < 324" by (auto simp: printable_def)
  then show "map_of ex_vocab (utf8_encode cp) \<noteq> None"
    by (simp add: ex_vocab_byte)
qed

text \<open>
  C3 (amended). When \<^verbatim>\<open>Load\<close> has built the byte encoder, every byte of the printable
  ranges 33-126, 161-172 and 174-255 has the vocabulary id of the character of its own
  code point; the other 68 byte values (0-32, 127-160 and 173), taken in increasing
  order, have the ids of the characters of the 68 consecutive code points 256, 257, ...,
  323: the second block starts at 256, it is not made of code points below 256.
\<close>

theorem byte_encoder_table:
  assumes "Load_byte_encoder EncodeUTF8Char v = Inr be"
  shows "(\<forall>b. printable b \<longrightarrow> map_of v (EncodeUTF8Char b) = Some (be b)) \<and>
         length nonprintable_bytes = 68 \<and>
         (\<forall>k < 68. map_of v (EncodeUTF8Char (256 + k)) = Some (be (nonprintable_bytes ! k)))"
proof (intro conjI allI impI)
  note upt_rec_numeral [simp del]
  note t = Load_byte_encoder_Inr [OF assms]
  show "length nonprintable_bytes = 68"
    by (rule nonprintable_bytes_length)
  show "map_of v (EncodeUTF8Char b) = Some (be b)" if "printable b" for b
    using that t(1) unfolding printable_def by blast
  show "map_of v (EncodeUTF8Char (256 + k)) = Some (be (nonprintable_bytes ! k))"
    if k: "k < 68" for k
  proof -
    consider "k < 33" | "33 \<le> k \<and> k < 67" | "k = 67"
      using k by linarith
    then show ?thesis
    proof cases
      case 1
      then have "nonprintable_bytes ! k = k"
        by (simp add: nonprintable_bytes_eq nth_append)
      with 1 t(2) show ?thesis by simp
    next
      case 2
      then have k33: "k - 33 < 34" "\<not> k < 33" "33 \<le> k"
        by linarith+
      then have "nonprintable_bytes ! k = 127 + (k - 33)"
        by (simp add: nonprintable_bytes_eq nth_append)
      moreover have "127 \<le> 127 + (k - 33) \<and> 127 + (k - 33) \<le> 160"
        using k33 by linarith
      with t(3) have "map_of v (EncodeUTF8Char (289 + (127 + (k - 33) - 127)))
          = Some (be (127 + (k - 33)))"
        by blast
      moreover have "289 + (127 + (k - 33) - 127) = 256 + k"
        using k33 by linarith
      ultimately show ?thesis by simp
    next
      case 3
      then have "nonprintable_bytes ! k = 173"
        by (simp add: nonprintable_bytes_eq nth_append)
      with 3 t(4) show ?thesis by simp
    qed
  qed
qed

theorem byte_encoder_table_witness:
  "case Load_byte_encoder utf8_encode ex_vocab of
     Inl e \<Rightarrow> False
   | Inr be \<Rightarrow> be 65 = 65 \<and> be 0 = 256 \<and> be 127 = 289 \<and> be 173 = 323"
proof -
  note upt_rec_numeral [simp del]
  from ex_vocab_encoder obtain be where be: "Load_byte_encoder utf8_encode ex_vocab = Inr be"
    by blast
  note t = byte_encoder_table [OF be]
  have "printable 65" by (simp add: printable_def)
  with t have "map_of ex_vocab (utf8_encode 65) = Some (be 65)" by blast
  then have a: "be 65 = 65" by (simp add: ex_vocab_byte)
  have n: "nonprintable_bytes ! 0 = 0" "nonprintable_bytes ! 33 = 127" "nonprintable_bytes ! 67 = 173"
    by (simp_all add: nonprintable_bytes_eq nth_append)
  from t have q: "k < 68 \<Longrightarrow>
      map_of ex_vocab (utf8_encode (256 + k)) = Some (be (nonprintable_bytes ! k))" for k
    by blast
  from q [of 0] q [of 33] q [of 67] have "be 0 = 256" "be 127 = 289" "be 173 = 323"
    by (simp_all add: n ex_vocab_byte)
  with a be show ?thesis by simp
qed

text \<open>
  On the example vocabulary, where the id of a character is its code point, byte 0 gets
  the id 256 of the code point 256, not the id 0 of the code point 0.
\<close>

theorem byte_encoder_second_block_counterexample:
  "case Load_byte_encoder utf8_encode ex_vocab of
     Inl e \<Rightarrow> False
   | Inr be \<Rightarrow> be 0 = 256 \<and> map_of ex_vocab (utf8_encode 0) = Some 0 \<and>
       map_of ex_vocab (utf8_encode 256) = Some 256"
proof -
  from ex_vocab_encoder obtain be where be: "Load_byte_encoder utf8_encode ex_vocab = Inr be"
    by blast
  from Load_byte_encoder_Inr(2) [OF be] have "map_of ex_vocab (utf8_encode (256 + 0)) = Some (be 0)"
    by blast
  then have "be 0 = 256" by (simp add: ex_vocab_byte)
  with be show ?thesis by (simp add: ex_vocab_byte)
qed

subsection \<open>The merges loop\<close>

lemma Load_merges_blank:
  "filter (\<lambda>c. c \<noteq> CHR 0x0D) l = [] \<Longrightarrow> Load_merges v (l # ls) index bm = Load_merges v ls index bm"
  by simp

lemma Load_merges_comment:
  "filter (\<lambda>c. c \<noteq> CHR 0x0D) l = CHR ''#'' # cs \<Longrightarrow>
     Load_merges v (l # ls) 0 bm = Load_merges v ls 0 bm"
  by simp

lemma Load_merges_rule:
  "filter (\<lambda>c. c \<noteq> CHR 0x0D) l = c # cs \<Longrightarrow> \<not> (c = CHR ''#'' \<and> index = 0) \<Longrightarrow>
     Load_merges v (l # ls) index bm =
       (case parse_merge_line v (c # cs) index of
          Inl e \<Rightarrow> Inl e
        | Inr (key, val) \<Rightarrow> Load_merges v ls (index + 1) (bm(key \<mapsto> val)))"
  by (cases "c = CHR ''#''") simp_all

lemma Load_merges_append:
  "Load_merges v (ls1 @ ls2) index bm =
     (case Load_merges v ls1 index bm of
        Inl e \<Rightarrow> Inl e
      | Inr (bm1, index1) \<Rightarrow> Load_merges v ls2 index1 bm1)"
proof (induction v ls1 index bm rule: Load_merges.induct)
  case (1 v index bm)
  then show ?case by simp
next
  case (2 v l ls index bm)
  show ?case
  proof (cases "filter (\<lambda>c. c \<noteq> CHR 0x0D) l")
    case Nil
    with 2 show ?thesis by simp
  next
    case (Cons c cs)
    show ?thesis
    proof (cases "c = CHR ''#'' \<and> index = 0")
      case True
      with "2.IH"(2) [OF Cons True] Cons show ?thesis by simp
    next
      case False
      note r = Load_merges_rule [OF Cons False]
      show ?thesis
      proof (cases "parse_merge_line v (c # cs) index")
        case (Inl e)
        then show ?thesis
          by (simp only: append_Cons r sum.case)
      next
        case (Inr kv)
        obtain key val where kv: "kv = (key, val)" by (cases kv)
        from "2.IH"(3) [OF Cons False Inr [unfolded kv] refl] Inr kv
        show ?thesis
          by (simp only: append_Cons r sum.case prod.case)
      qed
    qed
  qed
qed

lemma Load_merges_skip:
  "list_all skippable ls \<Longrightarrow> Load_merges v ls 0 bm = Inr (bm, 0)"
  by (induction ls) (auto simp: skippable_def split: list.splits)

lemma Load_merges_index:
  "Load_merges v ls index bm = Inr (bm1, index1) \<Longrightarrow> 0 \<le> index \<Longrightarrow>
     index \<le> index1 \<and> (index1 = 0 \<longrightarrow> list_all skippable ls)"
proof (induction v ls index bm rule: Load_merges.induct)
  case (1 v index bm)
  then show ?case by simp
next
  case (2 v l ls index bm)
  show ?case
  proof (cases "filter (\<lambda>c. c \<noteq> CHR 0x0D) l")
    case Nil
    with 2 show ?thesis by (simp add: skippable_def)
  next
    case (Cons c cs)
    show ?thesis
    proof (cases "c = CHR ''#'' \<and> index = 0")
      case True
      with 2 Cons show ?thesis by (simp add: skippable_def)
    next
      case False
      from "2.prems"(1) have "(case parse_merge_line v (c # cs) index of
          Inl e \<Rightarrow> Inl e
        | Inr (key, val) \<Rightarrow> Load_merges v ls (index + 1) (bm(key \<mapsto> val))) = Inr (bm1, index1)"
        by (simp only: Load_merges_rule [OF Cons False])
      then obtain key val
        where p: "parse_merge_line v (c # cs) index = Inr (key, val)"
          and run: "Load_merges v ls (index + 1) (bm(key \<mapsto> val)) = Inr (bm1, index1)"
        by (auto split: sum.splits simp del: fun_upd_apply)
      from "2.IH"(3) [OF Cons False p refl run] "2.prems"(2)
      have "index + 1 \<le> index1" by simp
      with "2.prems"(2) show ?thesis by simp
    qed
  qed
qed

lemma parse_merge_line_eq:
  assumes "search line '' '' = Some pos"
    and "int (length (take pos line) + length (drop (pos + 1) line)) \<le> INT_MAX"
  shows "parse_merge_line v line index =
     (case map_of v (take pos line) of
        None \<Rightarrow> Inl (InvalidArgument (''Cannot find word in vocabulary: '' @ take pos line))
      | Some iw1 \<Rightarrow>
     (case map_of v (drop (pos + 1) line) of
        None \<Rightarrow> Inl (InvalidArgument
                      (''Cannot find word in vocabulary: '' @ drop (pos + 1) line))
      | Some iw2 \<Rightarrow>
     (case map_of v (take pos line @ drop (pos + 1) line) of
        None \<Rightarrow> Inl (InvalidArgument
                      (''Cannot find word in vocabulary: ''
                       @ take pos line @ drop (pos + 1) line))
      | Some iww \<Rightarrow>
          Inr ((iw1, iw2),
               \<lparr>bpe_id = iww, bpe_value = index,
                bpe_length =
                  (if search (drop (pos + 1) line) ''</w>'' \<noteq> None
                      \<or> search (take pos line) ''</w>'' \<noteq> None
                   then int (length (take pos line) + length (drop (pos + 1) line)) - 4
                   else int (length (take pos line) + length (drop (pos + 1) line)))\<rparr>))))"
  using assms
  by (simp add: parse_merge_line_def Let_def narrow_int_def GetVocabIndex_def
           split: option.splits)

lemma parse_merge_line_Inr:
  assumes "parse_merge_line v line index = Inr (key, val)"
  shows "\<exists>pos. search line '' '' = Some pos \<and>
           map_of v (take pos line) = Some (fst key) \<and>
           map_of v (drop (pos + 1) line) = Some (snd key) \<and>
           map_of v (take pos line @ drop (pos + 1) line) = Some (bpe_id val) \<and>
           bpe_value val = index"
  using assms
  by (auto simp: parse_merge_line_def Let_def GetVocabIndex_def
           split: option.splits sum.splits)

lemma parse_merge_line_absent:
  assumes "search line '' '' = Some pos"
    and "int (length (take pos line) + length (drop (pos + 1) line)) \<le> INT_MAX"
    and "map_of v (take pos line) = None \<or> map_of v (drop (pos + 1) line) = None \<or>
         map_of v (take pos line @ drop (pos + 1) line) = None"
  shows "parse_merge_line v line index
           = Inl (InvalidArgument
                   (''Cannot find word in vocabulary: '' @
                    (if map_of v (take pos line) = None then take pos line
                     else if map_of v (drop (pos + 1) line) = None then drop (pos + 1) line
                     else take pos line @ drop (pos + 1) line)))"
proof (cases "map_of v (take pos line)")
  case None
  then show ?thesis
    by (simp add: parse_merge_line_eq [OF assms(1,2)])
next
  case s1: (Some iw1)
  show ?thesis
  proof (cases "map_of v (drop (pos + 1) line)")
    case None
    with s1 show ?thesis
      by (simp add: parse_merge_line_eq [OF assms(1,2)])
  next
    case s2: (Some iw2)
    with s1 assms(3) have "map_of v (take pos line @ drop (pos + 1) line) = None"
      by simp
    with s1 s2 show ?thesis
      by (simp add: parse_merge_line_eq [OF assms(1,2)])
  qed
qed

lemma Load_merges_fails:
  assumes "Load_unk vocab_json unk_token = (v, unk)"
    and "Load_byte_encoder EncodeUTF8Char v = Inr be"
    and "Load_merges v (getlines merges) 0 Map.empty = Inl e"
  shows "Load EncodeUTF8Char FromUTF8 vocab_json merges unk_token special = Inl e"
  using assms by (simp add: Load_def)

lemma Load_merges_line_fails:
  assumes "Load_merges v ls1 index bm = Inr (bm1, index1)"
    and "filter (\<lambda>c. c \<noteq> CHR 0x0D) l = c # cs" and "\<not> (c = CHR ''#'' \<and> index1 = 0)"
    and "parse_merge_line v (c # cs) index1 = Inl e"
  shows "Load_merges v (ls1 @ l # ls2) index bm = Inl e"
  by (simp only: Load_merges_append assms(1) sum.case prod.case
        Load_merges_rule [OF assms(2,3)] assms(4))

text \<open>
  C2 (amended). \<^verbatim>\<open>Load\<close> only looks the three words of a merges line up, in the order
  \<open>w1\<close>, \<open>w2\<close>, \<open>w1 + w2\<close>. When the line reaches the parsing step (the lines before it
  were read without error, it is not empty, not a skipped comment line, it has a space and
  the length of its two words fits an \<^verbatim>\<open>int\<close>) and \<open>w1\<close>, \<open>w2\<close> or \<open>w1 + w2\<close> is absent
  from the vocabulary, \<^verbatim>\<open>Load\<close> fails with the invalid-argument error
  \<^verbatim>\<open>Cannot find word in vocabulary\<close> that names the first of the three that is absent:
  \<open>w1\<close> if it is absent, else \<open>w2\<close> if it is absent, else \<open>w1 + w2\<close>. No id is assigned. A
  line that is parsed without error gives a rule whose three ids are the ones the
  vocabulary already has for \<open>w1\<close>, \<open>w2\<close> and \<open>w1 + w2\<close>.
\<close>

theorem merges_absent_word_is_error:
  assumes "Load_unk vocab_json unk_token = (v, unk)"
    and "Load_byte_encoder EncodeUTF8Char v = Inr be"
    and "getlines merges = ls1 @ l # ls2"
    and "Load_merges v ls1 0 Map.empty = Inr (bm1, index1)"
    and "filter (\<lambda>c. c \<noteq> CHR 0x0D) l = c # cs" and "\<not> (c = CHR ''#'' \<and> index1 = 0)"
    and "search (c # cs) '' '' = Some pos"
    and "w1 = take pos (c # cs)" and "w2 = drop (pos + 1) (c # cs)"
    and "int (length w1 + length w2) \<le> INT_MAX"
    and "map_of v w1 = None \<or> map_of v w2 = None \<or> map_of v (w1 @ w2) = None"
  shows "Load EncodeUTF8Char FromUTF8 vocab_json merges unk_token special
           = Inl (InvalidArgument
                   (''Cannot find word in vocabulary: '' @
                    (if map_of v w1 = None then w1
                     else if map_of v w2 = None then w2
                     else w1 @ w2))) \<and>
         (\<forall>line index key val. parse_merge_line v line index = Inr (key, val) \<longrightarrow>
            (\<exists>pos. search line '' '' = Some pos \<and>
               map_of v (take pos line) = Some (fst key) \<and>
               map_of v (drop (pos + 1) line) = Some (snd key) \<and>
               map_of v (take pos line @ drop (pos + 1) line) = Some (bpe_id val)))"
proof
  let ?w = "if map_of v w1 = None then w1 else if map_of v w2 = None then w2 else w1 @ w2"
  from parse_merge_line_absent [of "c # cs" pos v index1] assms(7-11)
  have p: "parse_merge_line v (c # cs) index1
              = Inl (InvalidArgument (''Cannot find word in vocabulary: '' @ ?w))"
    by simp
  from Load_merges_line_fails [OF assms(4,5,6) p, of ls2] assms(3)
  have "Load_merges v (getlines merges) 0 Map.empty
          = Inl (InvalidArgument (''Cannot find word in vocabulary: '' @ ?w))"
    by simp
  from Load_merges_fails [OF assms(1,2) this]
  show "Load EncodeUTF8Char FromUTF8 vocab_json merges unk_token special
          = Inl (InvalidArgument (''Cannot find word in vocabulary: '' @ ?w))" .
next
  show "\<forall>line index key val. parse_merge_line v line index = Inr (key, val) \<longrightarrow>
            (\<exists>pos. search line '' '' = Some pos \<and>
               map_of v (take pos line) = Some (fst key) \<and>
               map_of v (drop (pos + 1) line) = Some (snd key) \<and>
               map_of v (take pos line @ drop (pos + 1) line) = Some (bpe_id val))"
    using parse_merge_line_Inr by blast
qed

text \<open>
  C7 (amended). A line that starts with \<^verbatim>\<open>#\<close> is skipped exactly while no merge rule has
  been read, that is when every line before it is empty or starts with \<^verbatim>\<open>#\<close> itself:
  the first line, and also every line of a leading run of comment and empty lines. After
  the first rule, a line that starts with \<^verbatim>\<open>#\<close> is parsed as a merge rule like any other.
\<close>

theorem comment_line_skipped_while_no_rule:
  assumes "filter (\<lambda>c. c \<noteq> CHR 0x0D) l = CHR ''#'' # cs"
  shows "Load_merges v (ls1 @ l # ls2) 0 bm =
     (if list_all skippable ls1 then Load_merges v ls2 0 bm
      else case Load_merges v ls1 0 bm of
             Inl e \<Rightarrow> Inl e
           | Inr (bm1, index1) \<Rightarrow>
               (case parse_merge_line v (CHR ''#'' # cs) index1 of
                  Inl e \<Rightarrow> Inl e
                | Inr (key, val) \<Rightarrow> Load_merges v ls2 (index1 + 1) (bm1(key \<mapsto> val))))"
proof (cases "list_all skippable ls1")
  case True
  then have "Load_merges v ls1 0 bm = Inr (bm, 0)"
    by (rule Load_merges_skip)
  with True show ?thesis
    by (simp only: Load_merges_append sum.case prod.case Load_merges_comment [OF assms] if_True)
next
  case False
  show ?thesis
  proof (cases "Load_merges v ls1 0 bm")
    case (Inl e)
    with False show ?thesis
      by (simp only: Load_merges_append sum.case if_False)
  next
    case (Inr r)
    obtain bm1 index1 where r: "r = (bm1, index1)" by (cases r)
    from Load_merges_index [OF Inr [unfolded r]] False have "index1 \<noteq> 0"
      by auto
    then have "\<not> (CHR ''#'' = CHR ''#'' \<and> index1 = 0)" by simp
    from Load_merges_rule [OF assms this] Inr r False show ?thesis
      by (simp only: Load_merges_append sum.case prod.case if_False)
  qed
qed

lemma ex_chars:
  "char_of (97::nat) = CHR ''a''" "char_of (98::nat) = CHR ''b''"
  "char_of (99::nat) = CHR ''c''" "char_of (100::nat) = CHR ''d''"
  "char_of (35::nat) = CHR ''#''"
  by (simp_all add: char_of_eq_iff)

lemma getlines_step:
  "s \<noteq> [] \<Longrightarrow> getlines s = takeWhile (\<lambda>c. c \<noteq> CHR 0x0A) s
       # getlines (drop 1 (dropWhile (\<lambda>c. c \<noteq> CHR 0x0A) s))"
  by (subst getlines.simps) simp

lemma getlines_Nil: "getlines [] = []"
  by (subst getlines.simps) simp

lemma ex_vocab_words:
  "map_of ex_vocab ''a'' = Some 97" "map_of ex_vocab ''b'' = Some 98"
  "map_of ex_vocab ''c'' = Some 99" "map_of ex_vocab ''d'' = Some 100"
  "map_of ex_vocab ''#'' = Some 35"
  "map_of ex_vocab ''cd'' = Some 327" "map_of ex_vocab ''#b'' = Some 326"
  "map_of ex_vocab ''<|endoftext|>'' = Some 325"
  "map_of ex_vocab ''<|startoftext|>'' = Some 324"
  "map_of ex_vocab ''a</w>'' = Some 328" "map_of ex_vocab ''b</w>'' = Some 329"
  "map_of ex_vocab ''c</w>'' = Some 330" "map_of ex_vocab ''d</w>'' = Some 331"
  "map_of ex_vocab ''e</w>'' = Some 332"
  "map_of ex_vocab ''ab'' = None"
proof -
  note upt_rec_numeral [simp del]
  show "map_of ex_vocab ''a'' = Some 97"
    using ex_vocab_byte [of 97] by (simp add: utf8_encode_def ex_chars)
  show "map_of ex_vocab ''b'' = Some 98"
    using ex_vocab_byte [of 98] by (simp add: utf8_encode_def ex_chars)
  show "map_of ex_vocab ''c'' = Some 99"
    using ex_vocab_byte [of 99] by (simp add: utf8_encode_def ex_chars)
  show "map_of ex_vocab ''d'' = Some 100"
    using ex_vocab_byte [of 100] by (simp add: utf8_encode_def ex_chars)
  show "map_of ex_vocab ''#'' = Some 35"
    using ex_vocab_byte [of 35] by (simp add: utf8_encode_def ex_chars)
  show "map_of ex_vocab ''cd'' = Some 327" "map_of ex_vocab ''#b'' = Some 326"
    "map_of ex_vocab ''<|endoftext|>'' = Some 325"
    "map_of ex_vocab ''<|startoftext|>'' = Some 324"
    "map_of ex_vocab ''a</w>'' = Some 328" "map_of ex_vocab ''b</w>'' = Some 329"
    "map_of ex_vocab ''c</w>'' = Some 330" "map_of ex_vocab ''d</w>'' = Some 331"
    "map_of ex_vocab ''e</w>'' = Some 332"
    by (rule ex_vocab_word, simp add: ex_words_def)+
  show "map_of ex_vocab ''ab'' = None"
    by (rule ex_vocab_absent) (simp_all add: ex_words_def)
qed

lemma ex_parse:
  "parse_merge_line ex_vocab ''a b'' index
     = Inl (InvalidArgument ''Cannot find word in vocabulary: ab'')"
  "parse_merge_line ex_vocab ''c d'' index
     = Inr ((99, 100), \<lparr>bpe_id = 327, bpe_value = index, bpe_length = 2\<rparr>)"
  "parse_merge_line ex_vocab ''# b'' index
     = Inr ((35, 98), \<lparr>bpe_id = 326, bpe_value = index, bpe_length = 2\<rparr>)"
  by (simp_all add: parse_merge_line_def Let_def narrow_int_def INT_MAX_def
        GetVocabIndex_def ex_vocab_words)

lemma ex_getlines:
  "getlines ''a b'' = [''a b'']"
  "getlines ex_merges_fail = [''c d'', ''a b'']"
  "getlines ex_merges_comments = [''#version: 0.2'', ''# b'']"
  by (simp_all add: getlines_step getlines_Nil ex_merges_fail_def ex_merges_comments_def)

lemma ex_Load_unk: "Load_unk ex_vocab ''<|endoftext|>'' = (ex_vocab, 325)"
  by (simp add: Load_unk_def ex_vocab_words)

theorem merges_absent_word_is_error_witness:
  "Load utf8_encode ustring_of ex_vocab ex_merges_fail ''<|endoftext|>'' None
     = Inl (InvalidArgument ''Cannot find word in vocabulary: ab'') \<and>
   Load utf8_encode ustring_of ex_vocab ''ab c'' ''<|endoftext|>'' None
     = Inl (InvalidArgument ''Cannot find word in vocabulary: ab'')"
proof -
  from ex_vocab_encoder obtain be where be: "Load_byte_encoder utf8_encode ex_vocab = Inr be"
    by blast
  have first: "Load_merges ex_vocab [''c d''] 0 Map.empty
      = Inr ([(99, 100) \<mapsto> \<lparr>bpe_id = 327, bpe_value = 0, bpe_length = 2\<rparr>], 1)"
    by (simp add: ex_parse)
  have line: "filter (\<lambda>c. c \<noteq> CHR 0x0D) ''a b'' = CHR ''a'' # '' b''"
    "\<not> (CHR ''a'' = CHR ''#'' \<and> (1::int) = 0)"
    "search (CHR ''a'' # '' b'') '' '' = Some 1"
    "''a'' = take 1 (CHR ''a'' # '' b'')" "''b'' = drop (1 + 1) (CHR ''a'' # '' b'')"
    "int (length ''a'' + length ''b'') \<le> INT_MAX"
    "map_of ex_vocab ''a'' = None \<or> map_of ex_vocab ''b'' = None
       \<or> map_of ex_vocab (''a'' @ ''b'') = None"
    by (simp_all add: INT_MAX_def ex_vocab_words)
  have lines: "getlines ex_merges_fail = [''c d''] @ ''a b'' # []"
    by (simp add: ex_getlines)
  have none: "Load_merges ex_vocab [] 0 Map.empty = Inr (Map.empty, 0)"
    by simp
  have line2: "filter (\<lambda>c. c \<noteq> CHR 0x0D) ''ab c'' = CHR ''a'' # ''b c''"
    "\<not> (CHR ''a'' = CHR ''#'' \<and> (0::int) = 0)"
    "search (CHR ''a'' # ''b c'') '' '' = Some 2"
    "''ab'' = take 2 (CHR ''a'' # ''b c'')" "''c'' = drop (2 + 1) (CHR ''a'' # ''b c'')"
    "int (length ''ab'' + length ''c'') \<le> INT_MAX"
    "map_of ex_vocab ''ab'' = None \<or> map_of ex_vocab ''c'' = None
       \<or> map_of ex_vocab (''ab'' @ ''c'') = None"
    by (simp_all add: INT_MAX_def ex_vocab_words)
  have lines2: "getlines ''ab c'' = [] @ ''ab c'' # []"
    by (simp add: getlines_step getlines_Nil)
  from merges_absent_word_is_error [OF ex_Load_unk be lines first line,
      of ustring_of None]
    merges_absent_word_is_error [OF ex_Load_unk be lines2 none line2,
      of ustring_of None]
  show ?thesis
    by (simp add: ex_vocab_words)
qed

text \<open>
  With the merges text \<^verbatim>\<open>a b\<close> and the example vocabulary, which has \<^verbatim>\<open>a\<close> and \<^verbatim>\<open>b\<close> but
  not \<^verbatim>\<open>ab\<close>, \<^verbatim>\<open>Load\<close> fails: no fresh id is assigned to \<^verbatim>\<open>ab\<close>.
\<close>

theorem merges_fresh_id_counterexample:
  "Load utf8_encode ustring_of ex_vocab ''a b'' ''<|endoftext|>'' None
     = Inl (InvalidArgument ''Cannot find word in vocabulary: ab'')"
proof -
  from ex_vocab_encoder obtain be where be: "Load_byte_encoder utf8_encode ex_vocab = Inr be"
    by blast
  have "Load_merges ex_vocab (getlines ''a b'') 0 Map.empty
      = Inl (InvalidArgument ''Cannot find word in vocabulary: ab'')"
    by (simp add: ex_getlines ex_parse)
  with be show ?thesis
    by (simp add: Load_def ex_Load_unk)
qed

theorem comment_line_skipped_while_no_rule_witness:
  "Load_merges ex_vocab [''#version: 0.2'', ''# b''] 0 Map.empty = Inr (Map.empty, 0) \<and>
   Load_merges ex_vocab [''c d'', ''# b''] 0 Map.empty
     = Inr ([(99, 100) \<mapsto> \<lparr>bpe_id = 327, bpe_value = 0, bpe_length = 2\<rparr>,
             (35, 98) \<mapsto> \<lparr>bpe_id = 326, bpe_value = 1, bpe_length = 2\<rparr>], 2)"
proof -
  have l: "filter (\<lambda>c. c \<noteq> CHR 0x0D) ''# b'' = CHR ''#'' # '' b''"
    by simp
  have s: "list_all skippable [''#version: 0.2'']" "\<not> list_all skippable [''c d'']"
    by (simp_all add: skippable_def)
  have first: "Load_merges ex_vocab [''c d''] 0 Map.empty
      = Inr ([(99, 100) \<mapsto> \<lparr>bpe_id = 327, bpe_value = 0, bpe_length = 2\<rparr>], 1)"
    by (simp add: ex_parse)
  from comment_line_skipped_while_no_rule [OF l, of ex_vocab "[''#version: 0.2'']" "[]" Map.empty]
    comment_line_skipped_while_no_rule [OF l, of ex_vocab "[''c d'']" "[]" Map.empty]
    s first ex_parse(3) [of 1]
  show ?thesis by simp
qed

text \<open>
  The second line of the text \<open>ex_merges_comments\<close> starts with \<^verbatim>\<open>#\<close> and is a well-formed
  rule, but \<^verbatim>\<open>Load\<close> skips it as it skipped the first: the merge table stays empty.
\<close>

theorem later_comment_line_counterexample:
  "parse_merge_line ex_vocab ''# b'' 0
     = Inr ((35, 98), \<lparr>bpe_id = 326, bpe_value = 0, bpe_length = 2\<rparr>) \<and>
   (case Load utf8_encode ustring_of ex_vocab ex_merges_comments ''<|endoftext|>'' None of
      Inl e \<Rightarrow> False
    | Inr vd \<Rightarrow> bpe_map vd = Map.empty)"
proof -
  from ex_vocab_encoder obtain be where be: "Load_byte_encoder utf8_encode ex_vocab = Inr be"
    by blast
  have "Load_merges ex_vocab (getlines ex_merges_comments) 0 Map.empty
      = Inr (Map.empty, 0)"
    by (simp add: ex_getlines)
  with be show ?thesis
    by (simp add: Load_def ex_Load_unk ex_parse)
qed

section \<open>Properties of \<^verbatim>\<open>SplitBySpecialTokens\<close>\<close>


lemma Add_known:
  assumes "Add stm p_str p_id = Inr stm'" and "token_map stm p_str \<noteq> None"
  shows "stm' = stm" and "token_map stm p_str = Some p_id"
  using assms by (auto simp: Add_def split: if_splits option.splits)












section \<open>Properties of the scanner\<close>

lemma contraction_eq:
  "contraction m_text =
     (if take 2 m_text \<in> set contractions2 then Some 2
      else if take 3 m_text \<in> set contractions3 then Some 3
      else None)"
proof (cases m_text)
  case Nil
  then show ?thesis
    by (simp add: contraction_def contractions2_def contractions3_def)
next
  case c1: (Cons a r1)
  show ?thesis
  proof (cases r1)
    case Nil
    with c1 show ?thesis
      by (simp add: contraction_def contractions2_def contractions3_def ustring_of_def)
  next
    case c2: (Cons b r2)
    show ?thesis
    proof (cases r2)
      case Nil
      with c1 c2 show ?thesis
        by (auto simp: contraction_def contractions2_def contractions3_def U_def ustring_of_def)
    next
      case c3: (Cons c r3)
      with c1 c2 show ?thesis
        by (auto simp: contraction_def contractions2_def contractions3_def U_def ustring_of_def)
    qed
  qed
qed

lemma TryMatch_contraction:
  "contraction m_text = Some n \<Longrightarrow> TryMatch category m_text = (take n m_text, drop n m_text)"
  by (simp add: TryMatch_def match_length_def)

lemma contraction_t: "contraction (U (CHR 0x27) # U (CHR ''t'') # rest) = Some 2"
  by (simp add: contraction_def)

lemma GetNextToken_contraction:
  "contraction m_text = Some n \<Longrightarrow> n = 2 \<or> n = 3 \<Longrightarrow> n \<le> length m_text \<Longrightarrow>
     GetNextToken category m_text = (Some (take n m_text), drop n m_text)"
  by (subst GetNextToken.simps) (auto simp: TryMatch_contraction)

lemma ex_dont:
  "GetNextToken ascii_category (ustring_of ''don'' @ U (CHR 0x27) # ustring_of ''t'')
     = (Some (ustring_of ''don''), U (CHR 0x27) # ustring_of ''t'')"
  by (subst GetNextToken.simps)
     (simp add: TryMatch_def match_length_def contraction_def ustring_of_def U_def
        ascii_category_def run_end_def)

text \<open>
  C8 (amended). The contraction alternative of the scanner matches exactly when the text
  starts with an apostrophe and \<^verbatim>\<open>s\<close>, \<^verbatim>\<open>t\<close>, \<^verbatim>\<open>m\<close> or \<^verbatim>\<open>d\<close> (a match of two
  characters), or else with an apostrophe and \<^verbatim>\<open>re\<close>, \<^verbatim>\<open>ve\<close> or \<^verbatim>\<open>ll\<close> (a match of
  three), and \<^verbatim>\<open>TryMatch\<close> then returns that match. The contraction \<^verbatim>\<open>'t\<close> is reachable:
  on every text that starts with it, the scanner emits the two characters \<^verbatim>\<open>'t\<close> by the
  contraction alternative.
\<close>

theorem contraction_forms_and_t_reachable:
  "contraction m_text =
     (if take 2 m_text \<in> set contractions2 then Some 2
      else if take 3 m_text \<in> set contractions3 then Some 3
      else None) \<and>
   (contraction m_text = Some n \<longrightarrow>
      TryMatch category m_text = (take n m_text, drop n m_text)) \<and>
   contraction (U (CHR 0x27) # U (CHR ''t'') # rest) = Some 2 \<and>
   GetNextToken category (U (CHR 0x27) # U (CHR ''t'') # rest)
     = (Some [U (CHR 0x27), U (CHR ''t'')], rest)"
proof (intro conjI impI)
  show "contraction m_text =
     (if take 2 m_text \<in> set contractions2 then Some 2
      else if take 3 m_text \<in> set contractions3 then Some 3
      else None)"
    by (rule contraction_eq)
  show "TryMatch category m_text = (take n m_text, drop n m_text)"
    if "contraction m_text = Some n"
    using that by (rule TryMatch_contraction)
  show "contraction (U (CHR 0x27) # U (CHR ''t'') # rest) = Some 2"
    by (rule contraction_t)
  from GetNextToken_contraction [OF contraction_t, of rest category]
  show "GetNextToken category (U (CHR 0x27) # U (CHR ''t'') # rest)
     = (Some [U (CHR 0x27), U (CHR ''t'')], rest)"
    by simp
qed

theorem contraction_forms_and_t_reachable_witness:
  "contraction (U (CHR 0x27) # ustring_of ''re'') = Some 3 \<and>
   TryMatch ascii_category (U (CHR 0x27) # ustring_of ''re'')
     = (U (CHR 0x27) # ustring_of ''re'', [])"
proof -
  have "take 2 (U (CHR 0x27) # ustring_of ''re'') \<notin> set contractions2"
    "take 3 (U (CHR 0x27) # ustring_of ''re'') \<in> set contractions3"
    by (simp_all add: contractions2_def contractions3_def ustring_of_def U_def)
  with contraction_forms_and_t_reachable
         [of "U (CHR 0x27) # ustring_of ''re''" 3 ascii_category "[]"]
  show ?thesis by (simp add: ustring_of_def)
qed

text \<open>
  On the text \<^verbatim>\<open>don't\<close> the scanner emits \<^verbatim>\<open>don\<close> and then \<^verbatim>\<open>'t\<close>, a match of the
  contraction alternative.
\<close>

theorem contraction_t_counterexample:
  "contraction (U (CHR 0x27) # ustring_of ''t'') = Some 2 \<and>
   GetNextToken ascii_category (ustring_of ''don'' @ U (CHR 0x27) # ustring_of ''t'')
     = (Some (ustring_of ''don''), U (CHR 0x27) # ustring_of ''t'') \<and>
   GetNextToken ascii_category (U (CHR 0x27) # ustring_of ''t'')
     = (Some (U (CHR 0x27) # ustring_of ''t''), [])"
proof -
  have c: "contraction (U (CHR 0x27) # ustring_of ''t'') = Some 2"
    by (simp add: ustring_of_def contraction_t)
  from GetNextToken_contraction [OF c, of ascii_category]
  have "GetNextToken ascii_category (U (CHR 0x27) # ustring_of ''t'')
     = (Some (U (CHR 0x27) # ustring_of ''t''), [])"
    by (simp add: ustring_of_def)
  with c ex_dont show ?thesis by simp
qed

section \<open>Properties of \<^verbatim>\<open>Tokenize\<close>\<close>

lemma take_cap_append:
  "take k (xs @ ys) = take k xs @ take (k - length (take k xs)) ys"
  by (cases "k \<le> length xs") (simp_all add: min_def)

lemma add_output_res:
  "fst (add_output n com ps res off om)
     = res @ take (nat (n - int (length res))) (map fst ps)"
proof (induction ps arbitrary: res off om)
  case Nil
  then show ?case by simp
next
  case (Cons p ps)
  show ?case
  proof (cases "int (length res) \<ge> n")
    case True
    then show ?thesis by simp
  next
    case False
    then have "nat (n - int (length res)) = Suc (nat (n - int (length (res @ [fst p]))))"
      by simp
    with False Cons [of "res @ [fst p]"] show ?thesis
      by (cases com) simp_all
  qed
qed

lemma GetNextToken_nonempty:
  "GetNextToken category m_text = (Some tok, m_text') \<Longrightarrow> tok \<noteq> []"
proof (induction category m_text rule: GetNextToken.induct)
  case (1 category m_text)
  show ?case
  proof (cases "m_text = []")
    case True
    with "1.prems" show ?thesis
      by (simp add: GetNextToken.simps [of category "[]"])
  next
    case False
    obtain res t where tm: "TryMatch category m_text = (res, t)"
      by (cases "TryMatch category m_text")
    show ?thesis
    proof (cases "res = []")
      case True
      with False tm "1.prems" have "GetNextToken category (drop 1 t) = (Some tok, m_text')"
        by (simp add: GetNextToken.simps [of category m_text])
      then show ?thesis
        by (rule "1.IH" [OF False tm [symmetric] True])
    next
      case nonempty: False
      with False tm "1.prems" have "tok = res"
        by (simp add: GetNextToken.simps [of category m_text])
      with nonempty show ?thesis by simp
    qed
  qed
qed

lemma token_loop_res:
  "token_loop category ToUTF8 vd n com m_text res off om = Inr (res', off', om') \<Longrightarrow>
     res' = res @ take (nat (n - int (length res))) (token_ids category ToUTF8 vd m_text)"
proof (induction category ToUTF8 vd n com m_text res off om
    arbitrary: res' off' om' rule: token_loop.induct)
  case (1 category ToUTF8 vd n com m_text res off om)
  note run = "1.prems" [unfolded token_loop.simps [of category ToUTF8 vd n com m_text res off om]]
  show ?case
  proof (cases "int (length res) < n")
    case False
    with run show ?thesis by simp
  next
    case True
    obtain r t where g: "GetNextToken category m_text = (r, t)"
      by (cases "GetNextToken category m_text")
    show ?thesis
    proof (cases r)
      case None
      with run True g show ?thesis
        by (simp add: token_ids.simps [of category ToUTF8 vd m_text])
    next
      case (Some tok)
      let ?u = "ToUTF8 tok"
      let ?ids = "bpe (bpe_map vd) (byte_encodings vd (filter (\<lambda>c. c \<noteq> CHR '' '') ?u))"
      let ?off1 = "if com \<and> hd ?u = CHR '' '' then off + 1 else off"
      from run True g Some have ok: "\<not> (com \<and> ?u = [])"
        by (auto simp: Let_def)
      obtain res1 off1 om1 where a: "add_output n com ?ids res ?off1 om = (res1, off1, om1)"
        by (cases "add_output n com ?ids res ?off1 om")
      from run True g Some ok a
      have rec: "token_loop category ToUTF8 vd n com t res1 off1 om1 = Inr (res', off', om')"
        by (simp add: Let_def)
      have ih: "res' = res1 @ take (nat (n - int (length res1))) (token_ids category ToUTF8 vd t)"
      proof -
        have nn: "\<not> \<not> int (length res) < n" using True by simp
        show ?thesis
          by (rule "1.IH" [OF nn g [symmetric] Some refl ok refl refl refl
                a [symmetric] refl rec])
      qed
      define k where "k = nat (n - int (length res))"
      define ids where "ids = map fst ?ids"
      define rest where "rest = token_ids category ToUTF8 vd t"
      have r1: "res1 = res @ take k ids"
        using add_output_res [of n com ?ids res ?off1 om] a by (simp add: k_def ids_def)
      have "int (length res1) = int (length res) + int (length (take k ids))"
        by (simp only: r1 length_append of_nat_add)
      moreover have "length (take k ids) \<le> k"
        by simp
      ultimately have k1: "nat (n - int (length res1)) = k - length (take k ids)"
        unfolding k_def by linarith
      have "token_ids category ToUTF8 vd m_text = ids @ rest"
        using g Some by (simp add: token_ids.simps [of category ToUTF8 vd m_text] ids_def rest_def)
      then have "res @ take k (token_ids category ToUTF8 vd m_text)
          = res @ take k ids @ take (k - length (take k ids)) rest"
        by (simp only: take_cap_append [of k ids rest])
      also have "\<dots> = res1 @ take (k - length (take k ids)) rest"
        by (simp only: r1 append_assoc)
      also have "\<dots> = res1 @ take (nat (n - int (length res1))) rest"
        by (simp only: k1)
      also have "\<dots> = res'"
        by (simp only: ih rest_def)
      finally show ?thesis
        by (simp only: k_def)
    qed
  qed
qed

lemma cap_step:
  assumes r1: "res1 = res @ take (nat (n - int (length res))) ids"
    and ih: "res' = res1 @ take (nat (n - int (length res1))) rest"
  shows "res' = res @ take (nat (n - int (length res))) (ids @ rest)"
proof -
  define k where "k = nat (n - int (length res))"
  have r1': "res1 = res @ take k ids"
    using r1 by (simp only: k_def)
  have "int (length res1) = int (length res) + int (length (take k ids))"
    by (simp only: r1' length_append of_nat_add)
  moreover have "length (take k ids) \<le> k"
    by simp
  ultimately have k1: "nat (n - int (length res1)) = k - length (take k ids)"
    unfolding k_def by linarith
  have "res @ take k (ids @ rest) = res @ take k ids @ take (k - length (take k ids)) rest"
    by (simp only: take_cap_append [of k ids rest])
  also have "\<dots> = res1 @ take (k - length (take k ids)) rest"
    by (simp only: r1' append_assoc)
  also have "\<dots> = res1 @ take (nat (n - int (length res1))) rest"
    by (simp only: k1)
  also have "\<dots> = res'"
    by (simp only: ih)
  finally show ?thesis
    by (simp only: k_def)
qed

lemma token_loop_returns:
  assumes ok: "com \<longrightarrow> (\<forall>t. t \<noteq> [] \<longrightarrow> ToUTF8 t \<noteq> [])"
  shows "\<exists>r. token_loop category ToUTF8 vd n com m_text res off om = Inr r"
  using ok
proof (induction category ToUTF8 vd n com m_text res off om rule: token_loop.induct)
  case (1 category ToUTF8 vd n com m_text res off om)
  note unfold = token_loop.simps [of category ToUTF8 vd n com m_text res off om]
  show ?case
  proof (cases "int (length res) < n")
    case False
    then show ?thesis by (simp add: unfold)
  next
    case True
    obtain r t where g: "GetNextToken category m_text = (r, t)"
      by (cases "GetNextToken category m_text")
    show ?thesis
    proof (cases r)
      case None
      with True g show ?thesis by (simp add: unfold)
    next
      case (Some tok)
      let ?u = "ToUTF8 tok"
      let ?ids = "bpe (bpe_map vd) (byte_encodings vd (filter (\<lambda>c. c \<noteq> CHR '' '') ?u))"
      let ?off1 = "if com \<and> hd ?u = CHR '' '' then off + 1 else off"
      from g Some have "tok \<noteq> []"
        using GetNextToken_nonempty by blast
      with "1.prems" have nonempty: "\<not> (com \<and> ?u = [])"
        by blast
      obtain res1 off1 om1 where a: "add_output n com ?ids res ?off1 om = (res1, off1, om1)"
        by (cases "add_output n com ?ids res ?off1 om")
      have nn: "\<not> \<not> int (length res) < n" using True by simp
      from "1.IH" [OF nn g [symmetric] Some refl nonempty refl refl refl a [symmetric] refl
          "1.prems"]
      obtain r' where "token_loop category ToUTF8 vd n com t res1 off1 om1 = Inr r'"
        by blast
      with True g Some nonempty a show ?thesis
        by (cases r') (simp add: unfold Let_def)
    qed
  qed
qed

lemma segment_loop_res:
  "segment_loop category ToUTF8 vd n com segs res om = Inr (res', om') \<Longrightarrow>
     res' = res @ take (nat (n - int (length res))) (segment_ids category ToUTF8 vd segs)"
proof (induction segs arbitrary: res om)
  case Nil
  then show ?case by simp
next
  case (Cons seg segs)
  show ?case
  proof (cases "int (length res) \<ge> n")
    case True
    with Cons.prems show ?thesis by simp
  next
    case False
    show ?thesis
    proof (cases "snd seg \<noteq> - 1")
      case True
      with False Cons.prems
      have "segment_loop category ToUTF8 vd n com segs (res @ [snd seg]) om = Inr (res', om')"
        by simp
      from Cons.IH [OF this]
      have ih: "res' = (res @ [snd seg]) @ take (nat (n - int (length (res @ [snd seg]))))
                  (segment_ids category ToUTF8 vd segs)" .
      have "res @ [snd seg] = res @ take (nat (n - int (length res))) [snd seg]"
        using False by (cases "nat (n - int (length res))") simp_all
      from cap_step [OF this ih] True show ?thesis by simp
    next
      case untagged: False
      let ?t = "takeWhile (\<lambda>ch. ch \<noteq> 0) (fst seg)"
      let ?om0 = "if com then [(0, 0)] else []"
      from False untagged Cons.prems obtain res1 off1 om1
        where tl: "token_loop category ToUTF8 vd n com ?t res 0 ?om0 = Inr (res1, off1, om1)"
          and rec: "segment_loop category ToUTF8 vd n com segs res1
                      (if com then om @ [om1 @ [(0, 0)]] else om) = Inr (res', om')"
        by (auto split: sum.splits)
      from token_loop_res [OF tl] Cons.IH [OF rec]
      have "res' = res @ take (nat (n - int (length res)))
                  (token_ids category ToUTF8 vd ?t @ segment_ids category ToUTF8 vd segs)"
        by (rule cap_step)
      with untagged show ?thesis by simp
    qed
  qed
qed

lemma segment_loop_returns:
  assumes ok: "com \<longrightarrow> (\<forall>t. t \<noteq> [] \<longrightarrow> ToUTF8 t \<noteq> [])"
  shows "\<exists>r. segment_loop category ToUTF8 vd n com segs res om = Inr r"
proof (induction segs arbitrary: res om)
  case Nil
  then show ?case by simp
next
  case (Cons seg segs)
  let ?t = "takeWhile (\<lambda>ch. ch \<noteq> 0) (fst seg)"
  let ?om0 = "if com then [(0, 0)] else []"
  from token_loop_returns [OF ok] obtain res1 off1 om1
    where tl: "token_loop category ToUTF8 vd n com ?t res 0 ?om0 = Inr (res1, off1, om1)"
    by (metis prod_cases3)
  from Cons [of "res @ [snd seg]" om] Cons [of res1 "if com then om @ [om1 @ [(0, 0)]] else om"]
    Cons [of res om] tl
  show ?case by auto
qed

lemma Tokenize_empty:
  "IsEmptyUString (WhiteSpaceClean input) \<Longrightarrow>
     Tokenize category ToLower ToUTF8 vd input n com offset_map = Inr ([], offset_map)"
  by (simp add: Tokenize_def)

lemma Tokenize_res:
  assumes "\<not> IsEmptyUString (WhiteSpaceClean input)"
    and "Tokenize category ToLower ToUTF8 vd input n com offset_map = Inr (res, om)"
  shows "res = GetEncoding vd ''<|startoftext|>''
               # take (nat (n - 1)) (content_ids category ToLower ToUTF8 vd input)
               @ [GetEncoding vd ''<|endoftext|>'']"
proof -
  let ?segs = "SplitBySpecialTokens (special_tokens vd) (map ToLower (WhiteSpaceClean input))"
  from assms obtain res1
    where sl: "segment_loop category ToUTF8 vd n com ?segs
                 [GetEncoding vd ''<|startoftext|>''] offset_map = Inr (res1, om)"
      and r: "res = res1 @ [GetEncoding vd ''<|endoftext|>'']"
    by (auto simp: Tokenize_def Let_def split: sum.splits)
  from segment_loop_res [OF sl] r show ?thesis
    by (simp add: content_ids_def)
qed

lemma Tokenize_returns:
  assumes "com \<longrightarrow> (\<forall>t. t \<noteq> [] \<longrightarrow> ToUTF8 t \<noteq> [])"
  shows "\<exists>res om. Tokenize category ToLower ToUTF8 vd input n com offset_map = Inr (res, om)"
proof (cases "IsEmptyUString (WhiteSpaceClean input)")
  case True
  then show ?thesis by (simp add: Tokenize_empty)
next
  case False
  let ?segs = "SplitBySpecialTokens (special_tokens vd) (map ToLower (WhiteSpaceClean input))"
  from segment_loop_returns [OF assms] obtain res1 om1
    where "segment_loop category ToUTF8 vd n com ?segs
                 [GetEncoding vd ''<|startoftext|>''] offset_map = Inr (res1, om1)"
    by (metis surj_pair)
  with False show ?thesis
    by (simp add: Tokenize_def Let_def)
qed

lemma ReplaceString_none: "search s (c # cs) = None \<Longrightarrow> ReplaceString s (c # cs) r = s"
  by (subst ReplaceString.simps) simp

lemma ReplaceString_found:
  "search s (c # cs) = Some pos \<Longrightarrow>
     ReplaceString s (c # cs) r
       = take pos s @ r @ ReplaceString (drop (pos + length (c # cs)) s) (c # cs) r"
  by (subst ReplaceString.simps) simp

lemma WhiteSpaceClean_space: "WhiteSpaceClean (ustring_of '' '') = ustring_of '' ''"
  by (simp add: WhiteSpaceClean_def ustring_of_def U_def ReplaceString_none)

text \<open>Two line feeds become two spaces, of which \<^verbatim>\<open>std::unique\<close> keeps one: the text is
  cleaned to the string of one space, which is not empty.\<close>

lemma WhiteSpaceClean_newlines:
  "WhiteSpaceClean [0x0A, 0x0A] = ustring_of '' '' \<and>
   \<not> IsEmptyUString (WhiteSpaceClean [0x0A, 0x0A])"
proof -
  have s1: "search [0x0A, 0x0A :: nat] [0x0A] = Some 0"
    by simp
  have s2: "search [0x0A :: nat] [0x0A] = Some 0"
    by simp
  have s3: "search ([] :: nat list) [0x0A] = None"
    by simp
  have r: "ReplaceString [0x0A, 0x0A :: nat] [0x0A] [0x20] = [0x20, 0x20]"
    by (simp add: ReplaceString_found [OF s1] ReplaceString_found [OF s2]
          ReplaceString_none [OF s3])
  have c: "WhiteSpaceClean [0x0A, 0x0A] = ustring_of '' ''"
    by (simp add: WhiteSpaceClean_def ustring_of_def U_def r BothSpaces_def IsUnicodeSpace_def)
  then show ?thesis
    by (simp add: IsEmptyUString_def)
qed

text \<open>
  C6. When the input, after the white space is cleaned, holds only white-space
  characters and is not the string of one space, \<^verbatim>\<open>Tokenize\<close> returns the empty vector (and
  leaves the offset list as it was). The string of one space is not empty in this sense:
  on it \<^verbatim>\<open>Tokenize\<close> goes through the tokenization, and what it returns starts with the
  begin-of-sequence id and ends with the end-of-sequence id; it does return unless the
  conversion to UTF-8 gives an empty string while offsets are computed.
\<close>

theorem whitespace_only_input_yields_nothing:
  "(list_all IsUnicodeSpace (WhiteSpaceClean input) \<and> WhiteSpaceClean input \<noteq> ustring_of '' '' \<longrightarrow>
      Tokenize category ToLower ToUTF8 vd input max_length com offset_map
        = Inr ([], offset_map)) \<and>
   WhiteSpaceClean (ustring_of '' '') = ustring_of '' '' \<and>
   \<not> IsEmptyUString (WhiteSpaceClean (ustring_of '' '')) \<and>
   (\<forall>res om. Tokenize category ToLower ToUTF8 vd (ustring_of '' '') max_length com offset_map
                = Inr (res, om) \<longrightarrow>
      res = GetEncoding vd ''<|startoftext|>''
            # take (nat (max_length - 1))
                (content_ids category ToLower ToUTF8 vd (ustring_of '' ''))
            @ [GetEncoding vd ''<|endoftext|>'']) \<and>
   ((com \<longrightarrow> (\<forall>t. t \<noteq> [] \<longrightarrow> ToUTF8 t \<noteq> [])) \<longrightarrow>
      (\<exists>res om. Tokenize category ToLower ToUTF8 vd (ustring_of '' '') max_length com offset_map
                  = Inr (res, om) \<and> res \<noteq> []))"
proof -
  note clean = WhiteSpaceClean_space
  have nonempty: "\<not> IsEmptyUString (WhiteSpaceClean (ustring_of '' ''))"
    by (simp add: clean IsEmptyUString_def)
  have 1: "Tokenize category ToLower ToUTF8 vd input max_length com offset_map
             = Inr ([], offset_map)"
    if "list_all IsUnicodeSpace (WhiteSpaceClean input) \<and> WhiteSpaceClean input \<noteq> ustring_of '' ''"
    using that by (simp add: Tokenize_empty IsEmptyUString_def)
  have 2: "res = GetEncoding vd ''<|startoftext|>''
            # take (nat (max_length - 1))
                (content_ids category ToLower ToUTF8 vd (ustring_of '' ''))
            @ [GetEncoding vd ''<|endoftext|>'']"
    if "Tokenize category ToLower ToUTF8 vd (ustring_of '' '') max_length com offset_map
          = Inr (res, om)" for res om
    using Tokenize_res [OF nonempty that] .
  have 3: "\<exists>res om. Tokenize category ToLower ToUTF8 vd (ustring_of '' '') max_length com offset_map
                  = Inr (res, om) \<and> res \<noteq> []"
    if "com \<longrightarrow> (\<forall>t. t \<noteq> [] \<longrightarrow> ToUTF8 t \<noteq> [])"
  proof -
    from Tokenize_returns [OF that] obtain res om
      where t: "Tokenize category ToLower ToUTF8 vd (ustring_of '' '') max_length com offset_map
                  = Inr (res, om)"
      by blast
    from 2 [OF t] have "res \<noteq> []" by simp
    with t show ?thesis by blast
  qed
  show ?thesis
  proof (intro conjI impI allI)
    show "WhiteSpaceClean (ustring_of '' '') = ustring_of '' ''"
      by (rule clean)
    show "\<not> IsEmptyUString (WhiteSpaceClean (ustring_of '' ''))"
      by (rule nonempty)
  qed (use 1 2 3 in blast)+
qed

text \<open>
  C4 (amended). For an input that is not empty after cleaning, \<^verbatim>\<open>Tokenize\<close> returns the
  begin-of-sequence id, then the ids of the content cut to \<open>max_length - 1\<close>, then the
  end-of-sequence id, which is added after the cap has been enforced: it is the last
  element also when ids were cut, the length is at most \<open>max_length + 1\<close> for a cap of at
  least 1, and exactly that when the content fills the cap. An input that is empty after
  cleaning gives the empty vector, with no end-of-sequence id. With a cap of 3, an input
  whose result without truncation is \<open>[BOS, t1, t2, t3, t4, t5, EOS]\<close> gives
  \<open>[BOS, t1, t2, EOS]\<close>.
\<close>

theorem eos_appended_after_truncation:
  "(\<not> IsEmptyUString (WhiteSpaceClean input) \<and>
    Tokenize category ToLower ToUTF8 vd input max_length com offset_map = Inr (res, om) \<longrightarrow>
      res = GetEncoding vd ''<|startoftext|>''
            # take (nat (max_length - 1)) (content_ids category ToLower ToUTF8 vd input)
            @ [GetEncoding vd ''<|endoftext|>''] \<and>
      last res = GetEncoding vd ''<|endoftext|>'' \<and>
      (1 \<le> max_length \<longrightarrow> int (length res) \<le> max_length + 1) \<and>
      (1 \<le> max_length \<and>
       max_length - 1 \<le> int (length (content_ids category ToLower ToUTF8 vd input)) \<longrightarrow>
         int (length res) = max_length + 1)) \<and>
   (IsEmptyUString (WhiteSpaceClean input) \<longrightarrow>
      Tokenize category ToLower ToUTF8 vd input max_length com offset_map
        = Inr ([], offset_map)) \<and>
   ((com \<longrightarrow> (\<forall>t. t \<noteq> [] \<longrightarrow> ToUTF8 t \<noteq> [])) \<longrightarrow>
      (\<exists>res om. Tokenize category ToLower ToUTF8 vd input max_length com offset_map
                  = Inr (res, om))) \<and>
   (Tokenize category ToLower ToUTF8 vd input m com offset_map
      = Inr ([bos, t1, t2, t3, t4, t5, eos], om1) \<and>
    Tokenize category ToLower ToUTF8 vd input 3 com offset_map = Inr (res3, om3) \<longrightarrow>
      res3 = [bos, t1, t2, eos])"
proof -
  let ?ids = "content_ids category ToLower ToUTF8 vd input"
  let ?BOS = "GetEncoding vd ''<|startoftext|>''" and ?EOS = "GetEncoding vd ''<|endoftext|>''"
  have 1: "res = ?BOS # take (nat (max_length - 1)) ?ids @ [?EOS] \<and>
      last res = ?EOS \<and>
      (1 \<le> max_length \<longrightarrow> int (length res) \<le> max_length + 1) \<and>
      (1 \<le> max_length \<and> max_length - 1 \<le> int (length ?ids) \<longrightarrow>
         int (length res) = max_length + 1)"
    if a: "\<not> IsEmptyUString (WhiteSpaceClean input) \<and>
      Tokenize category ToLower ToUTF8 vd input max_length com offset_map = Inr (res, om)"
  proof -
    from a Tokenize_res [of input category ToLower ToUTF8 vd max_length com offset_map res om]
    have r: "res = ?BOS # take (nat (max_length - 1)) ?ids @ [?EOS]"
      by blast
    then have "last res = ?EOS"
      by simp
    moreover from r have l: "length res = 2 + min (length ?ids) (nat (max_length - 1))"
      by simp
    then have "1 \<le> max_length \<longrightarrow> int (length res) \<le> max_length + 1"
      by linarith
    moreover from l have "1 \<le> max_length \<and> max_length - 1 \<le> int (length ?ids) \<longrightarrow>
         int (length res) = max_length + 1"
      by linarith
    ultimately show ?thesis using r by blast
  qed
  have 4: "res3 = [bos, t1, t2, eos]"
    if b: "Tokenize category ToLower ToUTF8 vd input m com offset_map
      = Inr ([bos, t1, t2, t3, t4, t5, eos], om1) \<and>
      Tokenize category ToLower ToUTF8 vd input 3 com offset_map = Inr (res3, om3)"
  proof -
    have ne: "\<not> IsEmptyUString (WhiteSpaceClean input)"
    proof
      assume "IsEmptyUString (WhiteSpaceClean input)"
      from Tokenize_empty [OF this, of category ToLower ToUTF8 vd m com offset_map] b
      show False by simp
    qed
    from b Tokenize_res [OF ne, of category ToLower ToUTF8 vd m com offset_map]
    have "[bos, t1, t2, t3, t4, t5, eos] = ?BOS # take (nat (m - 1)) ?ids @ [?EOS]"
      by blast
    then have bos: "bos = ?BOS" and "[t1, t2, t3, t4, t5, eos] = take (nat (m - 1)) ?ids @ [?EOS]"
      by simp_all
    then have "butlast [t1, t2, t3, t4, t5, eos] = take (nat (m - 1)) ?ids"
      and "last [t1, t2, t3, t4, t5, eos] = ?EOS"
      by (simp_all only: butlast_snoc last_snoc)
    then have tk: "take (nat (m - 1)) ?ids = [t1, t2, t3, t4, t5]" and eos: "eos = ?EOS"
      by simp_all
    have "length (take (nat (m - 1)) ?ids) = 5"
      by (simp only: tk) simp
    then have "5 \<le> nat (m - 1)"
      by simp
    then have "take 2 ?ids = take 2 (take (nat (m - 1)) ?ids)"
      by (simp add: min_def)
    with tk have t2: "take 2 ?ids = [t1, t2]"
      by simp
    from b Tokenize_res [OF ne, of category ToLower ToUTF8 vd 3 com offset_map]
    have "res3 = ?BOS # take (nat (3 - 1)) ?ids @ [?EOS]"
      by blast
    with t2 bos eos show ?thesis by simp
  qed
  show ?thesis
  proof (intro conjI)
    show "IsEmptyUString (WhiteSpaceClean input) \<longrightarrow>
      Tokenize category ToLower ToUTF8 vd input max_length com offset_map
        = Inr ([], offset_map)"
      by (simp add: Tokenize_empty)
    show "(com \<longrightarrow> (\<forall>t. t \<noteq> [] \<longrightarrow> ToUTF8 t \<noteq> [])) \<longrightarrow>
      (\<exists>res om. Tokenize category ToLower ToUTF8 vd input max_length com offset_map
                  = Inr (res, om))"
      using Tokenize_returns by blast
  qed (use 1 4 in blast)+
qed

subsection \<open>The example tokenizer\<close>

lemma stream_words_Nil: "stream_words [] = []"
  by (subst stream_words.simps) simp

lemma stream_words_space: "isspace c \<Longrightarrow> stream_words (c # cs) = stream_words cs"
  by (subst stream_words.simps, subst (2) stream_words.simps) simp

lemma stream_words_word:
  "\<not> isspace c \<Longrightarrow>
     stream_words (c # cs)
       = (c # takeWhile (\<lambda>x. \<not> isspace x) cs) # stream_words (dropWhile (\<lambda>x. \<not> isspace x) cs)"
  by (subst stream_words.simps) simp

lemma ex_special_words: "stream_words ex_special = [''<|startoftext|>'', ''<|endoftext|>'']"
  by (simp add: ex_special_def stream_words_word stream_words_space stream_words_Nil
        isspace_def)

lemma ex_Load_special:
  "Load_special ustring_of [''<|startoftext|>'', ''<|endoftext|>''] ex_vocab no_special_tokens
     = Inr (ex_vocab, special_tokens (ex_loaded be))"
  by (simp add: Let_def ex_vocab_words Add_def no_special_tokens_def ex_loaded_def ustring_of_def U_def)

lemma ex_Load:
  assumes "Load_byte_encoder utf8_encode ex_vocab = Inr be"
  shows "Load utf8_encode ustring_of ex_vocab ''c d'' ''<|endoftext|>'' (Some ex_special)
           = Inr (ex_loaded be)"
proof -
  have "Load_merges ex_vocab (getlines ''c d'') 0 Map.empty
      = Inr ([(99, 100) \<mapsto> \<lparr>bpe_id = 327, bpe_value = 0, bpe_length = 2\<rparr>], 1)"
    by (simp add: getlines_step getlines_Nil ex_parse)
  with assms show ?thesis
    by (simp add: Load_def ex_Load_unk ex_special_words ex_Load_special [of be] ex_loaded_def
          del: Load_special.simps)
qed

lemma GetNextToken_Nil: "GetNextToken category [] = (None, [])"
  by (subst GetNextToken.simps) simp

lemma GetNextToken_match:
  "m_text \<noteq> [] \<Longrightarrow> match_length category m_text \<noteq> 0 \<Longrightarrow>
     GetNextToken category m_text
       = (Some (take (match_length category m_text) m_text),
          drop (match_length category m_text) m_text)"
  by (subst GetNextToken.simps) (simp add: TryMatch_def Let_def)

lemma bpe_short: "length vals < 2 \<Longrightarrow> bpe m vals = vals"
  by (simp add: bpe_fixed bpe_pass_short)

lemma token_ids_end:
  "GetNextToken category m_text = (None, t) \<Longrightarrow> token_ids category ToUTF8 vd m_text = []"
  by (subst token_ids.simps) simp

lemma token_ids_step:
  "GetNextToken category m_text = (Some tok, t) \<Longrightarrow>
     token_ids category ToUTF8 vd m_text
       = map fst (bpe (bpe_map vd)
                    (byte_encodings vd (filter (\<lambda>c. c \<noteq> CHR '' '') (ToUTF8 tok))))
         @ token_ids category ToUTF8 vd t"
  by (subst token_ids.simps) simp

lemma ascii_encode_ustring_of: "ascii_encode (ustring_of s) = s"
  by (simp add: ascii_encode_def ustring_of_def U_def comp_def)

lemma split_segment_none:
  "tx \<noteq> [] \<Longrightarrow> search tx (c # cs) = None \<Longrightarrow> split_segment tx (c # cs) tid = [(tx, - 1)]"
  by (subst split_segment.simps) simp

lemma ex_match:
  "match_length ascii_category (ustring_of ''a b c d e'') = 1"
  "match_length ascii_category (ustring_of '' b c d e'') = 2"
  "match_length ascii_category (ustring_of '' c d e'') = 2"
  "match_length ascii_category (ustring_of '' d e'') = 2"
  "match_length ascii_category (ustring_of '' e'') = 2"
  "match_length ascii_category (ustring_of '' '') = 1"
  by (simp_all add: match_length_def contraction_def run_end_def ascii_category_def
        ustring_of_def U_def IsZ_def NotLNZ_def)

lemma ex_next:
  "GetNextToken ascii_category (ustring_of ''a b c d e'')
     = (Some (ustring_of ''a''), ustring_of '' b c d e'')"
  "GetNextToken ascii_category (ustring_of '' b c d e'')
     = (Some (ustring_of '' b''), ustring_of '' c d e'')"
  "GetNextToken ascii_category (ustring_of '' c d e'')
     = (Some (ustring_of '' c''), ustring_of '' d e'')"
  "GetNextToken ascii_category (ustring_of '' d e'')
     = (Some (ustring_of '' d''), ustring_of '' e'')"
  "GetNextToken ascii_category (ustring_of '' e'')
     = (Some (ustring_of '' e''), ustring_of [])"
  "GetNextToken ascii_category (ustring_of '' '')
     = (Some (ustring_of '' ''), ustring_of [])"
  "GetNextToken ascii_category (ustring_of []) = (None, ustring_of [])"
proof -
  have ne: "ustring_of (c # cs) \<noteq> []" for c cs
    by (simp add: ustring_of_def)
  show "GetNextToken ascii_category (ustring_of ''a b c d e'')
     = (Some (ustring_of ''a''), ustring_of '' b c d e'')"
    by (simp add: GetNextToken_match [OF ne] ex_match) (simp add: ustring_of_def)
  show "GetNextToken ascii_category (ustring_of '' b c d e'')
     = (Some (ustring_of '' b''), ustring_of '' c d e'')"
    by (simp add: GetNextToken_match [OF ne] ex_match) (simp add: ustring_of_def)
  show "GetNextToken ascii_category (ustring_of '' c d e'')
     = (Some (ustring_of '' c''), ustring_of '' d e'')"
    by (simp add: GetNextToken_match [OF ne] ex_match) (simp add: ustring_of_def)
  show "GetNextToken ascii_category (ustring_of '' d e'')
     = (Some (ustring_of '' d''), ustring_of '' e'')"
    by (simp add: GetNextToken_match [OF ne] ex_match) (simp add: ustring_of_def)
  show "GetNextToken ascii_category (ustring_of '' e'')
     = (Some (ustring_of '' e''), ustring_of [])"
    by (simp add: GetNextToken_match [OF ne] ex_match) (simp add: ustring_of_def)
  show "GetNextToken ascii_category (ustring_of '' '')
     = (Some (ustring_of '' ''), ustring_of [])"
    by (simp add: GetNextToken_match [OF ne] ex_match) (simp add: ustring_of_def)
  show "GetNextToken ascii_category (ustring_of []) = (None, ustring_of [])"
    by (simp add: ustring_of_def GetNextToken_Nil)
qed

lemma ex_GetEncoding:
  "GetEncoding (ex_loaded be) ''a</w>'' = 328" "GetEncoding (ex_loaded be) ''b</w>'' = 329"
  "GetEncoding (ex_loaded be) ''c</w>'' = 330" "GetEncoding (ex_loaded be) ''d</w>'' = 331"
  "GetEncoding (ex_loaded be) ''e</w>'' = 332"
  "GetEncoding (ex_loaded be) ''<|startoftext|>'' = 324"
  "GetEncoding (ex_loaded be) ''<|endoftext|>'' = 325"
  by (simp_all add: GetEncoding_def ex_loaded_def ex_vocab_words)

lemma ex_token_ids:
  "token_ids ascii_category ascii_encode (ex_loaded be) (ustring_of ''a b c d e'')
     = [328, 329, 330, 331, 332]"
  "token_ids ascii_category ascii_encode (ex_loaded be) (ustring_of '' '') = []"
  by (simp_all add: token_ids_step [OF ex_next(1)] token_ids_step [OF ex_next(2)]
        token_ids_step [OF ex_next(3)] token_ids_step [OF ex_next(4)]
        token_ids_step [OF ex_next(5)] token_ids_step [OF ex_next(6)]
        token_ids_end [OF ex_next(7)]
        ascii_encode_ustring_of ex_GetEncoding bpe_short)

lemma ex_clean:
  "WhiteSpaceClean (ustring_of ''a b c d e'') = ustring_of ''a b c d e''"
  "WhiteSpaceClean [] = []"
  "WhiteSpaceClean [0x0A, 0x09] = [0x20, 0x09]"
  by (simp_all add: WhiteSpaceClean_def ReplaceString_none ReplaceString_found
        ustring_of_def U_def BothSpaces_def)

lemma ex_split:
  "SplitBySpecialTokens (special_tokens (ex_loaded be)) (ustring_of ''a b c d e'')
     = [(ustring_of ''a b c d e'', - 1)]"
  "SplitBySpecialTokens (special_tokens (ex_loaded be)) (ustring_of '' '')
     = [(ustring_of '' '', - 1)]"
  by (simp_all add: SplitBySpecialTokens_def ex_loaded_def ustring_of_def U_def
        split_segment_none)

lemma ex_content_ids:
  "content_ids ascii_category ascii_tolower ascii_encode (ex_loaded be)
     (ustring_of ''a b c d e'') = [328, 329, 330, 331, 332]"
  "content_ids ascii_category ascii_tolower ascii_encode (ex_loaded be) (ustring_of '' '') = []"
proof -
  have lower: "map ascii_tolower (ustring_of ''a b c d e'') = ustring_of ''a b c d e''"
    "map ascii_tolower (ustring_of '' '') = ustring_of '' ''"
    by (simp_all add: ascii_tolower_def ustring_of_def U_def)
  have nonull: "takeWhile (\<lambda>ch. ch \<noteq> 0) (ustring_of ''a b c d e'') = ustring_of ''a b c d e''"
    "takeWhile (\<lambda>ch. ch \<noteq> 0) (ustring_of '' '') = ustring_of '' ''"
    by (simp_all add: ustring_of_def U_def)
  show "content_ids ascii_category ascii_tolower ascii_encode (ex_loaded be)
     (ustring_of ''a b c d e'') = [328, 329, 330, 331, 332]"
    by (simp only: content_ids_def ex_clean lower ex_split segment_ids.simps fst_conv
          snd_conv nonull ex_token_ids) simp
  show "content_ids ascii_category ascii_tolower ascii_encode (ex_loaded be)
     (ustring_of '' '') = []"
    by (simp only: content_ids_def WhiteSpaceClean_space lower ex_split segment_ids.simps
          fst_conv snd_conv nonull ex_token_ids) simp
qed

lemma ascii_encode_nonempty: "t \<noteq> [] \<longrightarrow> ascii_encode t \<noteq> []"
  by (simp add: ascii_encode_def)

lemma ex_nonempty:
  "\<not> IsEmptyUString (WhiteSpaceClean (ustring_of ''a b c d e''))"
  "IsEmptyUString (WhiteSpaceClean [])"
  "list_all IsUnicodeSpace (WhiteSpaceClean [0x0A, 0x09])
     \<and> WhiteSpaceClean [0x0A, 0x09] \<noteq> ustring_of '' ''"
  by (simp_all only: ex_clean)
     (simp_all add: IsEmptyUString_def IsUnicodeSpace_def ustring_of_def U_def)

theorem whitespace_only_input_yields_nothing_witness:
  "case Load utf8_encode ustring_of ex_vocab ''c d'' ''<|endoftext|>'' (Some ex_special) of
     Inl e \<Rightarrow> False
   | Inr vd \<Rightarrow>
       Tokenize ascii_category ascii_tolower ascii_encode vd [0x0A, 0x09] 77 True []
         = Inr ([], []) \<and>
       (case Tokenize ascii_category ascii_tolower ascii_encode vd (ustring_of '' '') 77 True []
        of Inl e \<Rightarrow> False | Inr (res, om) \<Rightarrow> res = [324, 325])"
proof -
  from ex_vocab_encoder obtain be where be: "Load_byte_encoder utf8_encode ex_vocab = Inr be"
    by blast
  note t1 = whitespace_only_input_yields_nothing
    [where input = "[0x0A, 0x09]" and category = ascii_category and ToLower = ascii_tolower
       and ?ToUTF8.0 = ascii_encode and vd = "ex_loaded be" and max_length = 77 and com = True
       and offset_map = "[]"]
  from t1 ex_nonempty(3)
  have a: "Tokenize ascii_category ascii_tolower ascii_encode (ex_loaded be) [0x0A, 0x09] 77
             True [] = Inr ([], [])"
    by blast
  from t1 ascii_encode_nonempty obtain res om
    where r: "Tokenize ascii_category ascii_tolower ascii_encode (ex_loaded be)
                (ustring_of '' '') 77 True [] = Inr (res, om)"
    by blast
  with t1 have "res = GetEncoding (ex_loaded be) ''<|startoftext|>''
            # take (nat (77 - 1))
                (content_ids ascii_category ascii_tolower ascii_encode (ex_loaded be)
                   (ustring_of '' ''))
            @ [GetEncoding (ex_loaded be) ''<|endoftext|>'']"
    by blast
  then have "res = [324, 325]"
    by (simp add: ex_content_ids ex_GetEncoding)
  with a r show ?thesis
    by (simp add: ex_Load [OF be])
qed

theorem eos_appended_after_truncation_witness:
  "case Load utf8_encode ustring_of ex_vocab ''c d'' ''<|endoftext|>'' (Some ex_special) of
     Inl e \<Rightarrow> False
   | Inr vd \<Rightarrow>
       (case Tokenize ascii_category ascii_tolower ascii_encode vd (ustring_of ''a b c d e'')
               7 False []
        of Inl e \<Rightarrow> False | Inr (res, om) \<Rightarrow> res = [324, 328, 329, 330, 331, 332, 325]) \<and>
       (case Tokenize ascii_category ascii_tolower ascii_encode vd (ustring_of ''a b c d e'')
               3 False []
        of Inl e \<Rightarrow> False | Inr (res, om) \<Rightarrow> res = [324, 328, 329, 325])"
proof -
  from ex_vocab_encoder obtain be where be: "Load_byte_encoder utf8_encode ex_vocab = Inr be"
    by blast
  let ?T = "\<lambda>n. Tokenize ascii_category ascii_tolower ascii_encode (ex_loaded be)
                 (ustring_of ''a b c d e'') n False []"
  note t = eos_appended_after_truncation
    [where input = "ustring_of ''a b c d e''" and category = ascii_category
       and ToLower = ascii_tolower and ?ToUTF8.0 = ascii_encode and vd = "ex_loaded be"
       and com = False and offset_map = "[]"]
  from t [where max_length = 7] obtain r7 o7 where r7: "?T 7 = Inr (r7, o7)"
    by blast
  from t [where max_length = 3] obtain r3 o3 where r3: "?T 3 = Inr (r3, o3)"
    by blast
  from t [where max_length = 7 and res = r7 and om = o7] r7 ex_nonempty(1)
  have "r7 = GetEncoding (ex_loaded be) ''<|startoftext|>''
            # take (nat (7 - 1))
                (content_ids ascii_category ascii_tolower ascii_encode (ex_loaded be)
                   (ustring_of ''a b c d e''))
            @ [GetEncoding (ex_loaded be) ''<|endoftext|>'']"
    by blast
  then have v7: "r7 = [324, 328, 329, 330, 331, 332, 325]"
    by (simp add: ex_content_ids ex_GetEncoding)
  from t [where m = 7 and bos = 324 and ?t1.0 = 328 and ?t2.0 = 329 and ?t3.0 = 330
             and ?t4.0 = 331 and ?t5.0 = 332 and eos = 325 and ?om1.0 = o7
             and ?res3.0 = r3 and ?om3.0 = o3] r7 v7 r3
  have "r3 = [324, 328, 329, 325]"
    by blast
  with r7 v7 r3 show ?thesis
    by (simp add: ex_Load [OF be])
qed

text \<open>
  On the empty string \<^verbatim>\<open>Tokenize\<close> returns the empty vector: the result has no last
  element, and no end-of-sequence id.
\<close>

theorem eos_last_for_every_input_counterexample:
  "case Load utf8_encode ustring_of ex_vocab ''c d'' ''<|endoftext|>'' (Some ex_special) of
     Inl e \<Rightarrow> False
   | Inr vd \<Rightarrow>
       Tokenize ascii_category ascii_tolower ascii_encode vd [] 3 False [] = Inr ([], [])"
proof -
  from ex_vocab_encoder obtain be where be: "Load_byte_encoder utf8_encode ex_vocab = Inr be"
    by blast
  from Tokenize_empty [OF ex_nonempty(2)] show ?thesis
    by (simp add: ex_Load [OF be])
qed

end
